theory Spec2Isabelle
  imports Main "HOL-Library.Sublist" "HOL-Library.AList"
begin

section \<open>C strings and the formatting calls of the server\<close>

text \<open>
  A \<^verbatim>\<open>char\<close> array is the list of its bytes. Where the C code reads an array as a
  string it stops at the first NUL byte: \<open>c_str\<close> is that string and \<open>strlen\<close> its
  length. A read at an index past the modelled bytes yields NUL (the terminator or the
  zero padding of a message that was cleared with \<^verbatim>\<open>memset\<close>).
\<close>

definition NUL :: char where
  "NUL = CHR 0x00"

definition c_str :: "string \<Rightarrow> string" where
  "c_str s = takeWhile (\<lambda>c. c \<noteq> NUL) s"

definition strlen :: "string \<Rightarrow> nat" where
  "strlen s = length (c_str s)"

definition char_at :: "string \<Rightarrow> nat \<Rightarrow> char" where
  "char_at s i = (if i < length s then s ! i else NUL)"

text \<open>
  \<^verbatim>\<open>strncmp(a, b, n)\<close>: compares at most \<open>n\<close> bytes and stops after a NUL that both
  strings share. The result is the difference of the first two bytes that differ.
\<close>

fun strncmp :: "string \<Rightarrow> string \<Rightarrow> nat \<Rightarrow> int" where
  "strncmp a b 0 = 0"
| "strncmp a b (Suc n) =
     (let c = char_at a 0; d = char_at b 0 in
      if c \<noteq> d then int (of_char c) - int (of_char d)
      else if c = NUL then 0
      else strncmp (tl a) (tl b) n)"

text \<open>\<^verbatim>\<open>strcmp(a, b)\<close>: the same comparison with no bound.\<close>

fun strcmp :: "string \<Rightarrow> string \<Rightarrow> int" where
  "strcmp [] [] = 0"
| "strcmp [] (d # ds) = (if d = NUL then 0 else - int (of_char d))"
| "strcmp (c # cs) [] = (if c = NUL then 0 else int (of_char c))"
| "strcmp (c # cs) (d # ds) =
     (if c \<noteq> d then int (of_char c) - int (of_char d)
      else if c = NUL then 0
      else strcmp cs ds)"

text \<open>The conversion \<^verbatim>\<open>%d\<close> of \<^verbatim>\<open>printf\<close>: decimal digits, with a minus sign
  in front of a negative number.\<close>

definition digit_char :: "nat \<Rightarrow> char" where
  "digit_char d = char_of (48 + d)"

fun digits_nat :: "nat \<Rightarrow> string" where
  "digits_nat n =
     (if n < 10 then [digit_char n] else digits_nat (n div 10) @ [digit_char (n mod 10)])"

declare digits_nat.simps [simp del]

definition fmt_d :: "int \<Rightarrow> string" where
  "fmt_d i = (if i < 0 then CHR ''-'' # digits_nat (nat (- i)) else digits_nat (nat i))"

text \<open>
  \<^verbatim>\<open>snprintf(buf, size, ...)\<close> stores at most \<open>size - 1\<close> bytes of the formatted text
  before the terminator. \<open>snprintf_trunc cap txt\<close> is the string left in the buffer.
\<close>

definition snprintf_trunc :: "nat \<Rightarrow> string \<Rightarrow> string" where
  "snprintf_trunc cap txt = take (cap - 1) txt"

section \<open>The permission check of the file server\<close>

text \<open>
  \<^verbatim>\<open>check_permission(owner, path, path_len)\<close> of the server: 1 when the owner may
  use the path, 0 when not. The two assignments to \<^verbatim>\<open>is_valid\<close> are the two
  \<^verbatim>\<open>if\<close> blocks of the source, in their order.
\<close>

definition check_permission :: "int \<Rightarrow> string \<Rightarrow> int \<Rightarrow> int" where
  "check_permission owner path path_len =
     (let owner_prefix = snprintf_trunc 10 (''/A'' @ fmt_d owner);
          shared_prefix = ''/A0'';
          owner_prefix_len = int (strlen owner_prefix);
          shared_prefix_len = int (strlen shared_prefix);
          is_owner_path = (strncmp path owner_prefix (nat owner_prefix_len) = 0);
          is_shared_path = (strncmp path shared_prefix (nat shared_prefix_len) = 0);
          is_valid0 = (0 :: int);
          is_valid1 =
            (if is_owner_path then
               (if path_len = owner_prefix_len then 1
                else if char_at path (nat owner_prefix_len) = CHR ''/'' then 1
                else is_valid0)
             else is_valid0);
          is_valid2 =
            (if is_shared_path then
               (if path_len = shared_prefix_len then 1
                else if char_at path (nat shared_prefix_len) = CHR ''/'' then 1
                else is_valid1)
             else is_valid1)
      in is_valid2)"



section \<open>The SFP message\<close>

text \<open>
  The header \<^verbatim>\<open>sfp_protocol.h\<close>. The enumeration \<^verbatim>\<open>SfpMsgType\<close> travels as an
  \<^verbatim>\<open>int\<close> in the datagram, so a message can carry a number outside of it; the ten
  enumerators are the numbers 0 to 9.
\<close>

abbreviation (input) SFP_PAYLOAD_SIZE :: nat where "SFP_PAYLOAD_SIZE \<equiv> 16"
abbreviation (input) SFP_MAX_NAMES_IN_DIR :: nat where "SFP_MAX_NAMES_IN_DIR \<equiv> 40"
abbreviation (input) SFP_MAX_PATH_LEN :: nat where "SFP_MAX_PATH_LEN \<equiv> 512"
abbreviation (input) SFP_MAX_ALLFILENAMES_LEN :: nat where "SFP_MAX_ALLFILENAMES_LEN \<equiv> 2048"

abbreviation (input) SFP_SUCCESS :: int where "SFP_SUCCESS \<equiv> 0"
abbreviation (input) SFP_ERR_PERMISSION :: int where "SFP_ERR_PERMISSION \<equiv> - 1"
abbreviation (input) SFP_ERR_NOT_FOUND :: int where "SFP_ERR_NOT_FOUND \<equiv> - 2"
abbreviation (input) SFP_ERR_OFFSET_OOB :: int where "SFP_ERR_OFFSET_OOB \<equiv> - 3"
abbreviation (input) SFP_ERR_IO :: int where "SFP_ERR_IO \<equiv> - 4"
abbreviation (input) SFP_ERR_UNKNOWN_MSG :: int where "SFP_ERR_UNKNOWN_MSG \<equiv> - 100"

abbreviation (input) SFP_MSG_RD_REQ :: int where "SFP_MSG_RD_REQ \<equiv> 0"
abbreviation (input) SFP_MSG_RD_REP :: int where "SFP_MSG_RD_REP \<equiv> 1"
abbreviation (input) SFP_MSG_WR_REQ :: int where "SFP_MSG_WR_REQ \<equiv> 2"
abbreviation (input) SFP_MSG_WR_REP :: int where "SFP_MSG_WR_REP \<equiv> 3"
abbreviation (input) SFP_MSG_DC_REQ :: int where "SFP_MSG_DC_REQ \<equiv> 4"
abbreviation (input) SFP_MSG_DC_REP :: int where "SFP_MSG_DC_REP \<equiv> 5"
abbreviation (input) SFP_MSG_DR_REQ :: int where "SFP_MSG_DR_REQ \<equiv> 6"
abbreviation (input) SFP_MSG_DR_REP :: int where "SFP_MSG_DR_REP \<equiv> 7"
abbreviation (input) SFP_MSG_DL_REQ :: int where "SFP_MSG_DL_REQ \<equiv> 8"
abbreviation (input) SFP_MSG_DL_REP :: int where "SFP_MSG_DL_REP \<equiv> 9"

record SfpFstLst =
  start_index :: int
  end_index :: int
  is_dir :: int

record SfpMessage =
  msg_type :: int
  owner :: int
  path_len :: int
  path :: string
  name_len :: int
  name :: string
  offset :: int
  payload :: string
  nrnames :: int
  fstlstpositions :: "SfpFstLst list"
  allfilenames :: string

text \<open>The message after \<^verbatim>\<open>memset(&send_msg, 0, BUFFER_SIZE)\<close>: every field zero, every
  array at its declared size.\<close>

definition zero_msg :: SfpMessage where
  "zero_msg =
     \<lparr>msg_type = 0, owner = 0, path_len = 0, path = replicate SFP_MAX_PATH_LEN NUL,
      name_len = 0, name = replicate SFP_MAX_PATH_LEN NUL, offset = 0,
      payload = replicate SFP_PAYLOAD_SIZE NUL, nrnames = 0,
      fstlstpositions =
        replicate SFP_MAX_NAMES_IN_DIR \<lparr>start_index = 0, end_index = 0, is_dir = 0\<rparr>,
      allfilenames = replicate SFP_MAX_ALLFILENAMES_LEN NUL\<rparr>"

text \<open>
  Writes into a \<^verbatim>\<open>char\<close> array. \<open>arr n xs\<close> is the array of \<open>n\<close> bytes that starts with
  \<open>xs\<close>; \<^verbatim>\<open>strncpy(dst, src, n)\<close> fills all \<open>n\<close> bytes, with NUL after the string;
  \<^verbatim>\<open>strcpy\<close> and \<^verbatim>\<open>snprintf\<close> store the string and one NUL and leave the bytes
  after it; \<^verbatim>\<open>memcpy(&dst[i], src, n)\<close> replaces \<open>n\<close> bytes from index \<open>i\<close>.
\<close>

definition arr :: "nat \<Rightarrow> string \<Rightarrow> string" where
  "arr n xs = take n (xs @ replicate n NUL)"

definition strncpy :: "string \<Rightarrow> nat \<Rightarrow> string" where
  "strncpy src n = arr n (c_str src)"

definition str_into :: "string \<Rightarrow> string \<Rightarrow> string" where
  "str_into dst s = s @ NUL # drop (length s + 1) dst"

definition strcpy :: "string \<Rightarrow> string \<Rightarrow> string" where
  "strcpy dst src = str_into dst (c_str src)"

definition memcpy_at :: "string \<Rightarrow> nat \<Rightarrow> string \<Rightarrow> nat \<Rightarrow> string" where
  "memcpy_at dst i src n = take i dst @ take n src @ drop (i + n) dst"

section \<open>The host file system as the server sees it\<close>

text \<open>
  The server reaches the host through \<^verbatim>\<open>fopen\<close>, \<^verbatim>\<open>fseek\<close>, \<^verbatim>\<open>ftell\<close>,
  \<^verbatim>\<open>fread\<close>, \<^verbatim>\<open>fwrite\<close>, \<^verbatim>\<open>unlink\<close>, \<^verbatim>\<open>mkdir\<close>, \<^verbatim>\<open>rmdir\<close>,
  \<^verbatim>\<open>opendir\<close>, \<^verbatim>\<open>readdir\<close> and \<^verbatim>\<open>stat\<close>. These calls are not code of the
  repository; they are modelled here as follows.

  \<^item> The store is a finite table from host paths, compared as written, to nodes: a
    regular file with its bytes, or a directory.
  \<^item> Opening for reading or updating succeeds exactly when the path names a regular file;
    reading an open file does not fail; the stream is not buffered.
  \<^item> The calls that change the store can fail for reasons the store does not show (a
    full device, a read-only mount, a missing parent directory). The record \<open>os_env\<close>
    holds these outcomes for one request: whether \<^verbatim>\<open>unlink\<close>, the creating
    \<^verbatim>\<open>fopen\<close>, the final \<^verbatim>\<open>fseek\<close>, \<^verbatim>\<open>mkdir\<close> and \<^verbatim>\<open>rmdir\<close> are let
    through, and how many bytes \<^verbatim>\<open>fwrite\<close> can still transfer.
\<close>

datatype node = File (contents: string) | Dir

type_synonym store = "(string \<times> node) list"

definition lookup :: "store \<Rightarrow> string \<Rightarrow> node option" where
  "lookup fs p = map_of fs p"

record os_env =
  can_unlink :: bool
  can_create :: bool
  can_seek :: bool
  wr_capacity :: nat
  can_mkdir :: bool
  can_rmdir :: bool

text \<open>An open stream: the path it was opened on and the file position.\<close>

record stream =
  s_path :: string
  s_pos :: nat

definition fopen_rb :: "store \<Rightarrow> string \<Rightarrow> stream option" where
  "fopen_rb fs p =
     (case lookup fs p of
        Some (File c) \<Rightarrow> Some \<lparr>s_path = p, s_pos = 0\<rparr>
      | _ \<Rightarrow> None)"

definition fopen_rplus :: "store \<Rightarrow> string \<Rightarrow> stream option" where
  "fopen_rplus fs p = fopen_rb fs p"

definition fopen_wplus :: "os_env \<Rightarrow> store \<Rightarrow> string \<Rightarrow> (store \<times> stream) option" where
  "fopen_wplus env fs p =
     (if can_create env \<and> lookup fs p \<noteq> Some Dir
      then Some (AList.update p (File []) fs, \<lparr>s_path = p, s_pos = 0\<rparr>)
      else None)"

text \<open>The bytes of the regular file at a path; none when there is no such file.\<close>

definition bytes_at :: "store \<Rightarrow> string \<Rightarrow> string" where
  "bytes_at fs p = (case lookup fs p of Some (File c) \<Rightarrow> c | _ \<Rightarrow> [])"

definition file_bytes :: "store \<Rightarrow> stream \<Rightarrow> string" where
  "file_bytes fs f = bytes_at fs (s_path f)"

definition fseek_end :: "store \<Rightarrow> stream \<Rightarrow> stream" where
  "fseek_end fs f = f\<lparr>s_pos := length (file_bytes fs f)\<rparr>"

definition ftell :: "stream \<Rightarrow> int" where
  "ftell f = int (s_pos f)"

text \<open>\<^verbatim>\<open>fseek(f, off, SEEK_SET)\<close>: a negative offset is refused and the position stays.\<close>

definition fseek_set :: "bool \<Rightarrow> stream \<Rightarrow> int \<Rightarrow> int \<times> stream" where
  "fseek_set ok f off = (if off < 0 \<or> \<not> ok then (- 1, f) else (0, f\<lparr>s_pos := nat off\<rparr>))"

definition fread :: "store \<Rightarrow> stream \<Rightarrow> nat \<Rightarrow> string \<times> stream" where
  "fread fs f n =
     (let bytes = take n (drop (s_pos f) (file_bytes fs f))
      in (bytes, f\<lparr>s_pos := s_pos f + length bytes\<rparr>))"

text \<open>Bytes stored at a position: a position past the end leaves a gap of NUL bytes, as
  POSIX does.\<close>

definition write_at :: "string \<Rightarrow> nat \<Rightarrow> string \<Rightarrow> string" where
  "write_at c pos bs = take pos c @ replicate (pos - length c) NUL @ bs @ drop (pos + length bs) c"

text \<open>\<^verbatim>\<open>fwrite\<close> of \<open>bs\<close> with \<open>cap\<close> bytes of capacity left: the count written, the
  capacity left, the store and the stream.\<close>

definition fwrite :: "nat \<Rightarrow> store \<Rightarrow> stream \<Rightarrow> string \<Rightarrow> nat \<times> nat \<times> store \<times> stream" where
  "fwrite cap fs f bs =
     (let n = min (length bs) cap;
          c' = write_at (file_bytes fs f) (s_pos f) (take n bs)
      in (n, cap - n, (if n = 0 then fs else AList.update (s_path f) (File c') fs),
          f\<lparr>s_pos := s_pos f + n\<rparr>))"

definition unlink :: "os_env \<Rightarrow> store \<Rightarrow> string \<Rightarrow> int \<times> store" where
  "unlink env fs p =
     (case lookup fs p of
        Some (File c) \<Rightarrow> if can_unlink env then (0, AList.delete p fs) else (- 1, fs)
      | _ \<Rightarrow> (- 1, fs))"

definition mkdir :: "os_env \<Rightarrow> store \<Rightarrow> string \<Rightarrow> int \<times> store" where
  "mkdir env fs p =
     (if can_mkdir env \<and> lookup fs p = None then (0, AList.update p Dir fs) else (- 1, fs))"

text \<open>The names below a directory: the paths of the store that continue the directory's
  path with a slash and one more component.\<close>

definition child_name :: "string \<Rightarrow> string \<Rightarrow> string list" where
  "child_name d p =
     (let n = drop (length d + 1) p
      in if prefix (d @ ''/'') p \<and> n \<noteq> [] \<and> CHR ''/'' \<notin> set n then [n] else [])"

definition dir_entries :: "store \<Rightarrow> string \<Rightarrow> string list" where
  "dir_entries fs d = concat (map (\<lambda>(p, _). child_name d p) fs)"

definition rmdir :: "os_env \<Rightarrow> store \<Rightarrow> string \<Rightarrow> int \<times> store" where
  "rmdir env fs p =
     (if can_rmdir env \<and> lookup fs p = Some Dir \<and> dir_entries fs p = []
      then (0, AList.delete p fs) else (- 1, fs))"

text \<open>\<^verbatim>\<open>opendir\<close> with the names \<^verbatim>\<open>readdir\<close> then yields, in the order of the store;
  the entries for the directory itself and its parent come with them.\<close>

definition opendir :: "store \<Rightarrow> string \<Rightarrow> string list option" where
  "opendir fs d =
     (if lookup fs d = Some Dir then Some ([''.'', ''..''] @ dir_entries fs d) else None)"

definition stat_is_dir :: "store \<Rightarrow> string \<Rightarrow> bool" where
  "stat_is_dir fs p = (lookup fs p = Some Dir)"

section \<open>The request handlers of the file server\<close>

text \<open>
  Each handler takes the request and the reply under construction (the caller clears it
  and sets \<open>owner\<close>) and gives back the reply; a handler that can change the host gives
  back the store as well. \<open>root\<close> is the global \<^verbatim>\<open>SFSS_ROOT_DIR\<close>. Messages printed to
  the terminal are left out.
\<close>

definition full_path_of :: "string \<Rightarrow> string \<Rightarrow> string" where
  "full_path_of root p = snprintf_trunc (SFP_MAX_PATH_LEN + 256) (c_str root @ c_str p)"

definition handle_rd_req :: "string \<Rightarrow> store \<Rightarrow> SfpMessage \<Rightarrow> SfpMessage \<Rightarrow> SfpMessage" where
  "handle_rd_req root fs req res0 =
     (let res = res0\<lparr>msg_type := SFP_MSG_RD_REP, owner := owner req,
                     path := strncpy (path req) SFP_MAX_PATH_LEN, path_len := path_len req,
                     offset := offset req, payload := replicate SFP_PAYLOAD_SIZE NUL\<rparr>
      in if check_permission (owner req) (path req) (int (strlen (path req))) = 0
         then res\<lparr>offset := SFP_ERR_PERMISSION\<rparr>
         else
           let full_path = full_path_of root (path req)
           in case fopen_rb fs full_path of
                None \<Rightarrow> res\<lparr>offset := SFP_ERR_NOT_FOUND\<rparr>
              | Some file0 \<Rightarrow>
                  let file1 = fseek_end fs file0;
                      file_size = ftell file1
                  in if offset req \<ge> file_size \<and> \<not> (file_size = 0 \<and> offset req = 0)
                     then res\<lparr>offset := SFP_ERR_OFFSET_OOB\<rparr>
                     else
                       let file2 = snd (fseek_set True file1 (offset req));
                           bytes = fst (fread fs file2 SFP_PAYLOAD_SIZE)
                       in res\<lparr>payload := bytes @ drop (length bytes) (payload res)\<rparr>)"

text \<open>The loop that fills a hole: one \<^verbatim>\<open>fwrite\<close> of a space per position from the file
  size up to the offset; \<open>k\<close> is the number of positions left. The result says whether
  every write stored its byte.\<close>

fun fill_hole :: "nat \<Rightarrow> nat \<Rightarrow> store \<Rightarrow> stream \<Rightarrow> bool \<times> nat \<times> store \<times> stream" where
  "fill_hole 0 cap fs f = (True, cap, fs, f)"
| "fill_hole (Suc k) cap fs f =
     (case fwrite cap fs f [CHR 0x20] of
        (w, cap', fs', f') \<Rightarrow>
          if w \<noteq> 1 then (False, cap', fs', f') else fill_hole k cap' fs' f')"

text \<open>Steps 6 and 7 of \<^verbatim>\<open>handle_wr_req\<close>, on the stream that step 5 opened: fill the
  hole when the offset lies past the end, seek to the offset, write the payload.\<close>

definition wr_fill_and_write ::
  "os_env \<Rightarrow> store \<Rightarrow> stream \<Rightarrow> SfpMessage \<Rightarrow> SfpMessage \<Rightarrow> SfpMessage \<times> store" where
  "wr_fill_and_write env fs1 file0 req res =
     (let file1 = fseek_end fs1 file0;
          file_size = ftell file1
      in case (if offset req > file_size
               then fill_hole (nat (offset req - file_size)) (wr_capacity env) fs1
                      (snd (fseek_set True file1 file_size))
               else (True, wr_capacity env, fs1, file1)) of
           (filled, cap2, fs2, file2) \<Rightarrow>
             if \<not> filled then (res\<lparr>offset := SFP_ERR_IO\<rparr>, fs2)
             else
               case fseek_set (can_seek env) file2 (offset req) of
                 (st, file3) \<Rightarrow>
                   if st \<noteq> 0 then (res\<lparr>offset := SFP_ERR_IO\<rparr>, fs2)
                   else
                     case fwrite cap2 fs2 file3 (arr SFP_PAYLOAD_SIZE (payload req)) of
                       (bytes_written, cap3, fs3, file4) \<Rightarrow>
                         if bytes_written \<noteq> SFP_PAYLOAD_SIZE
                         then (res\<lparr>offset := SFP_ERR_IO\<rparr>, fs3)
                         else (res, fs3))"

definition handle_wr_req ::
  "os_env \<Rightarrow> string \<Rightarrow> store \<Rightarrow> SfpMessage \<Rightarrow> SfpMessage \<Rightarrow> SfpMessage \<times> store" where
  "handle_wr_req env root fs req res0 =
     (let res = res0\<lparr>msg_type := SFP_MSG_WR_REP, owner := owner req,
                     path := strncpy (path req) SFP_MAX_PATH_LEN, path_len := path_len req,
                     payload := replicate SFP_PAYLOAD_SIZE NUL, offset := offset req\<rparr>
      in if check_permission (owner req) (path req) (int (strlen (path req))) = 0
         then (res\<lparr>offset := SFP_ERR_PERMISSION\<rparr>, fs)
         else
           let full_path = full_path_of root (path req)
           in if offset req = 0 \<and> char_at (payload req) 0 = NUL
              then (case unlink env fs full_path of
                      (st, fs') \<Rightarrow>
                        if st = 0 then (res\<lparr>offset := 0\<rparr>, fs')
                        else (res\<lparr>offset := SFP_ERR_IO\<rparr>, fs'))
              else
                case (case fopen_rplus fs full_path of
                        Some f \<Rightarrow> Some (fs, f)
                      | None \<Rightarrow> fopen_wplus env fs full_path) of
                  None \<Rightarrow> (res\<lparr>offset := SFP_ERR_NOT_FOUND\<rparr>, fs)
                | Some (fs1, file0) \<Rightarrow> wr_fill_and_write env fs1 file0 req res)"

definition handle_dc_req ::
  "os_env \<Rightarrow> string \<Rightarrow> store \<Rightarrow> SfpMessage \<Rightarrow> SfpMessage \<Rightarrow> SfpMessage \<times> store" where
  "handle_dc_req env root fs req res0 =
     (let res = res0\<lparr>msg_type := SFP_MSG_DC_REP, owner := owner req\<rparr>
      in if check_permission (owner req) (path req) (int (strlen (path req))) = 0
         then (res\<lparr>path := strcpy (path res) (path req), path_len := SFP_ERR_PERMISSION\<rparr>, fs)
         else
           let full_new_path =
                 snprintf_trunc (SFP_MAX_PATH_LEN + 256)
                   (c_str root @ c_str (path req) @ ''/'' @ c_str (name req))
           in case mkdir env fs full_new_path of
                (st, fs') \<Rightarrow>
                  if st = 0
                  then (let new_path =
                              str_into (path res)
                                (snprintf_trunc SFP_MAX_PATH_LEN
                                   (c_str (path req) @ ''/'' @ c_str (name req)))
                        in (res\<lparr>path := new_path, path_len := int (strlen new_path)\<rparr>, fs'))
                  else (res\<lparr>path := strcpy (path res) (path req), path_len := SFP_ERR_IO\<rparr>,
                        fs'))"

definition handle_dr_req ::
  "os_env \<Rightarrow> string \<Rightarrow> store \<Rightarrow> SfpMessage \<Rightarrow> SfpMessage \<Rightarrow> SfpMessage \<times> store" where
  "handle_dr_req env root fs req res0 =
     (let res = res0\<lparr>msg_type := SFP_MSG_DR_REP, owner := owner req,
                     path := strcpy (path res0) (path req)\<rparr>
      in if check_permission (owner req) (path req) (int (strlen (path req))) = 0
         then (res\<lparr>path_len := SFP_ERR_PERMISSION\<rparr>, fs)
         else
           let full_target_path =
                 snprintf_trunc (SFP_MAX_PATH_LEN + 256)
                   (c_str root @ c_str (path req) @ ''/'' @ c_str (name req))
           in case unlink env fs full_target_path of
                (st, fs1) \<Rightarrow>
                  case (if st \<noteq> 0 then rmdir env fs1 full_target_path else (st, fs1)) of
                    (status, fs2) \<Rightarrow>
                      if status = 0 then (res\<lparr>path_len := int (strlen (path res))\<rparr>, fs2)
                      else (res\<lparr>path_len := SFP_ERR_IO\<rparr>, fs2))"

text \<open>The test that lets the listing pass over the entries \<^verbatim>\<open>.\<close> and \<^verbatim>\<open>..\<close>.\<close>

definition is_dot_entry :: "string \<Rightarrow> bool" where
  "is_dot_entry d_name = (strcmp d_name ''.'' = 0 \<or> strcmp d_name ''..'' = 0)"

text \<open>
  The \<^verbatim>\<open>readdir\<close> loop of the listing, over the names still to come. \<open>ni\<close> is
  \<^verbatim>\<open>current_name_index\<close> and \<open>ci\<close> is \<^verbatim>\<open>current_char_index\<close>; the result is the
  final name index with the reply. A \<^verbatim>\<open>break\<close> ends the recursion, a \<^verbatim>\<open>continue\<close>
  goes on with the next name.
\<close>

fun dl_scan ::
  "store \<Rightarrow> string \<Rightarrow> string list \<Rightarrow> int \<Rightarrow> int \<Rightarrow> SfpMessage \<Rightarrow> int \<times> SfpMessage" where
  "dl_scan fs full_path [] ni ci res = (ni, res)"
| "dl_scan fs full_path (d_name # rest) ni ci res =
     (if is_dot_entry d_name then dl_scan fs full_path rest ni ci res
      else if ni \<ge> int SFP_MAX_NAMES_IN_DIR then (ni, res)
      else
        let name_len = int (strlen d_name)
        in if ci + name_len \<ge> int SFP_MAX_ALLFILENAMES_LEN then (ni, res)
           else
             let entry_full_path =
                   snprintf_trunc (SFP_MAX_PATH_LEN + 512)
                     (c_str full_path @ ''/'' @ c_str d_name);
                 isdir = (if stat_is_dir fs entry_full_path then 1 else 0);
                 res' = res\<lparr>fstlstpositions :=
                              (fstlstpositions res)
                                [nat ni := \<lparr>start_index = ci, end_index = ci + name_len - 1,
                                            is_dir = isdir\<rparr>],
                            allfilenames :=
                              memcpy_at (allfilenames res) (nat ci) d_name (nat name_len)\<rparr>
             in dl_scan fs full_path rest (ni + 1) (ci + name_len) res')"

definition handle_dl_req :: "string \<Rightarrow> store \<Rightarrow> SfpMessage \<Rightarrow> SfpMessage \<Rightarrow> SfpMessage" where
  "handle_dl_req root fs req res0 =
     (let res = res0\<lparr>msg_type := SFP_MSG_DL_REP, owner := owner req, nrnames := 0,
                     allfilenames := replicate SFP_MAX_ALLFILENAMES_LEN NUL,
                     fstlstpositions :=
                       replicate SFP_MAX_NAMES_IN_DIR
                         \<lparr>start_index = 0, end_index = 0, is_dir = 0\<rparr>\<rparr>
      in if check_permission (owner req) (path req) (int (strlen (path req))) = 0
         then res\<lparr>nrnames := SFP_ERR_PERMISSION\<rparr>
         else
           let full_path = full_path_of root (path req)
           in case opendir fs full_path of
                None \<Rightarrow> res\<lparr>nrnames := SFP_ERR_NOT_FOUND\<rparr>
              | Some names \<Rightarrow>
                  (case dl_scan fs full_path names 0 0 res of
                     (current_name_index, res') \<Rightarrow> res'\<lparr>nrnames := current_name_index\<rparr>))"

text \<open>
  For stating what a listing holds. \<open>listed names\<close> are the names the scan can record, in
  the order \<^verbatim>\<open>readdir\<close> gave them; \<open>name_start ks k\<close> is the index in the name buffer
  at which the \<open>k\<close>-th of them starts when the names before it are stored with no
  separator; \<open>listing_entry\<close> is the triple the reply should hold for it.
\<close>

definition listed :: "string list \<Rightarrow> string list" where
  "listed names = filter (\<lambda>n. \<not> is_dot_entry n) names"

definition name_start :: "string list \<Rightarrow> nat \<Rightarrow> nat" where
  "name_start ks k = length (concat (map c_str (take k ks)))"

definition listing_entry :: "store \<Rightarrow> string \<Rightarrow> string list \<Rightarrow> nat \<Rightarrow> SfpFstLst" where
  "listing_entry fs full_path ks k =
     \<lparr>start_index = int (name_start ks k),
      end_index = int (name_start ks k) + int (strlen (ks ! k)) - 1,
      is_dir = (if stat_is_dir fs
                     (snprintf_trunc (SFP_MAX_PATH_LEN + 512)
                        (c_str full_path @ ''/'' @ c_str (ks ! k)))
                then 1 else 0)\<rparr>"

text \<open>One turn of the server's loop after \<^verbatim>\<open>recvfrom\<close>: the reply that goes to
  \<^verbatim>\<open>sendto\<close> and the store afterwards.\<close>

definition sfss_serve :: "os_env \<Rightarrow> string \<Rightarrow> store \<Rightarrow> SfpMessage \<Rightarrow> SfpMessage \<times> store" where
  "sfss_serve env root fs recv_msg =
     (let send_msg = zero_msg\<lparr>owner := owner recv_msg\<rparr>
      in if msg_type recv_msg = SFP_MSG_RD_REQ then (handle_rd_req root fs recv_msg send_msg, fs)
         else if msg_type recv_msg = SFP_MSG_WR_REQ then handle_wr_req env root fs recv_msg send_msg
         else if msg_type recv_msg = SFP_MSG_DC_REQ then handle_dc_req env root fs recv_msg send_msg
         else if msg_type recv_msg = SFP_MSG_DR_REQ then handle_dr_req env root fs recv_msg send_msg
         else if msg_type recv_msg = SFP_MSG_DL_REQ then (handle_dl_req root fs recv_msg send_msg, fs)
         else (send_msg\<lparr>msg_type := msg_type recv_msg + 1, owner := owner recv_msg,
                        path_len := SFP_ERR_UNKNOWN_MSG\<rparr>, fs))"

section \<open>The kernel: process table, ready queue and scheduler\<close>

text \<open>
  The globals of \<^verbatim>\<open>KernelSim_T2.c\<close> as one record. The three queues are the ring
  buffers of the source: an array with a head index, a tail index and a size. \<open>shm\<close>
  holds the reply slot of each application. Signals sent to children and lines printed
  to the terminal are left out; so is the datagram sent to the server on a system call.
\<close>

abbreviation (input) N_APPS :: nat where "N_APPS \<equiv> 5"
abbreviation (input) MAX_BLOCKED :: nat where "MAX_BLOCKED \<equiv> N_APPS"
abbreviation (input) MAX_READY :: nat where "MAX_READY \<equiv> N_APPS"

datatype ProcState = READY | RUNNING | BLOCKED | TERMINATED

record PCB =
  pid :: int
  app_id :: int
  state :: ProcState
  pc :: int
  pending_syscall :: SfpMessage

record kernel =
  pcbs :: "PCB list"
  running_idx :: int
  file_req_q :: "SfpMessage list"
  fq_h :: nat
  fq_t :: nat
  fq_sz :: nat
  dir_req_q :: "SfpMessage list"
  dq_h :: nat
  dq_t :: nat
  dq_sz :: nat
  rq :: "int list"
  rq_h :: nat
  rq_t :: nat
  rq_sz :: nat
  shm :: "SfpMessage list"

fun pid_scan :: "PCB list \<Rightarrow> int \<Rightarrow> int \<Rightarrow> int" where
  "pid_scan [] p i = - 1"
| "pid_scan (x # xs) p i = (if pid x = p then i else pid_scan xs p (i + 1))"

definition pid_to_index :: "kernel \<Rightarrow> int \<Rightarrow> int" where
  "pid_to_index s p = pid_scan (pcbs s) p 0"

definition state_of :: "kernel \<Rightarrow> int \<Rightarrow> ProcState" where
  "state_of s idx = state (pcbs s ! nat idx)"

definition set_state :: "int \<Rightarrow> ProcState \<Rightarrow> kernel \<Rightarrow> kernel" where
  "set_state idx st s = s\<lparr>pcbs := (pcbs s)[nat idx := (pcbs s ! nat idx)\<lparr>state := st\<rparr>]\<rparr>"

definition rq_push_tail :: "int \<Rightarrow> kernel \<Rightarrow> kernel" where
  "rq_push_tail idx s =
     (if rq_sz s \<ge> MAX_READY then s
      else if state_of s idx = TERMINATED then s
      else s\<lparr>rq := (rq s)[rq_t s := idx], rq_t := (rq_t s + 1) mod MAX_READY,
             rq_sz := rq_sz s + 1\<rparr>)"

definition rq_pop_head :: "kernel \<Rightarrow> int \<times> kernel" where
  "rq_pop_head s =
     (if rq_sz s = 0 then (- 1, s)
      else (rq s ! rq_h s, s\<lparr>rq_h := (rq_h s + 1) mod MAX_READY, rq_sz := rq_sz s - 1\<rparr>))"

text \<open>The ready queue from head to tail, as the snapshot prints it.\<close>

definition rq_contents :: "kernel \<Rightarrow> int list" where
  "rq_contents s = map (\<lambda>k. rq s ! ((rq_h s + k) mod MAX_READY)) [0..<rq_sz s]"

text \<open>The block that stands twice in \<^verbatim>\<open>schedule_next\<close>: a process that is still
  running is stopped, made ready and put at the tail.\<close>

definition stop_running :: "kernel \<Rightarrow> kernel" where
  "stop_running s =
     (if running_idx s \<ge> 0 \<and> state_of s (running_idx s) = RUNNING
      then rq_push_tail (running_idx s) (set_state (running_idx s) READY s)
      else s)"

text \<open>The \<^verbatim>\<open>while (tries-- > 0)\<close> loop of \<^verbatim>\<open>schedule_next\<close>. The flag of the result
  is true when the function returned from inside the loop with a process chosen.\<close>

fun sched_loop :: "nat \<Rightarrow> kernel \<Rightarrow> bool \<times> kernel" where
  "sched_loop 0 s = (False, s)"
| "sched_loop (Suc tries) s =
     (let nxt = fst (rq_pop_head s); s1 = snd (rq_pop_head s)
      in if nxt < 0 then (False, s1)
         else if state_of s1 nxt = READY
         then (True, (set_state nxt RUNNING (stop_running s1))\<lparr>running_idx := nxt\<rparr>)
         else if state_of s1 nxt \<noteq> TERMINATED then sched_loop tries (rq_push_tail nxt s1)
         else sched_loop tries s1)"

text \<open>The loop that rebuilds an empty ready queue from the process table, with its flag
  \<^verbatim>\<open>found_ready\<close>.\<close>

fun requeue_ready :: "nat list \<Rightarrow> kernel \<Rightarrow> bool \<Rightarrow> kernel \<times> bool" where
  "requeue_ready [] s found_ready = (s, found_ready)"
| "requeue_ready (i # rest) s found_ready =
     (if state_of s (int i) = READY
      then requeue_ready rest (rq_push_tail (int i) s) True
      else requeue_ready rest s found_ready)"

text \<open>\<^verbatim>\<open>schedule_next\<close> calls itself after it has rebuilt the queue, so it is defined
  as a partial function: \<open>None\<close> would be a call that does not return.\<close>

partial_function (option) schedule_next :: "kernel \<Rightarrow> kernel option" where
  "schedule_next s =
     (let r = sched_loop (rq_sz s) s
      in if fst r then Some (snd r)
         else
           let s2 = stop_running (snd r)
           in if rq_sz s2 = 0
              then (let q = requeue_ready [0..<N_APPS] s2 False
                    in if snd q then schedule_next (fst q)
                       else Some ((fst q)\<lparr>running_idx := - 1\<rparr>))
              else Some (s2\<lparr>running_idx := - 1\<rparr>))"

declare schedule_next.simps [code]

text \<open>The lines of the interrupt controller, as \<^verbatim>\<open>drain_inter\<close> handles them.\<close>

definition irq0 :: "kernel \<Rightarrow> kernel option" where
  "irq0 s =
     schedule_next
       (if running_idx s \<ge> 0 \<and> state_of s (running_idx s) = RUNNING
        then (let cur = running_idx s
              in (rq_push_tail cur (set_state cur READY s))\<lparr>running_idx := - 1\<rparr>)
        else s)"

definition unblock_owner :: "SfpMessage \<Rightarrow> kernel \<Rightarrow> kernel option" where
  "unblock_owner res_msg s =
     (let idx = owner res_msg - 1
      in if idx \<ge> 0 \<and> idx < int N_APPS \<and> state_of s idx = BLOCKED
         then (let s1 = rq_push_tail idx
                          (set_state idx READY (s\<lparr>shm := (shm s)[nat idx := res_msg]\<rparr>))
               in if running_idx s1 = - 1 then schedule_next s1 else Some s1)
         else Some s)"

definition irq1 :: "kernel \<Rightarrow> kernel option" where
  "irq1 s =
     (if fq_sz s > 0
      then unblock_owner (file_req_q s ! fq_h s)
             (s\<lparr>fq_h := (fq_h s + 1) mod MAX_BLOCKED, fq_sz := fq_sz s - 1\<rparr>)
      else Some s)"

definition irq2 :: "kernel \<Rightarrow> kernel option" where
  "irq2 s =
     (if dq_sz s > 0
      then unblock_owner (dir_req_q s ! dq_h s)
             (s\<lparr>dq_h := (dq_h s + 1) mod MAX_BLOCKED, dq_sz := dq_sz s - 1\<rparr>)
      else Some s)"

text \<open>A datagram from the server, as \<^verbatim>\<open>handle_sfs_reply\<close> files it.\<close>

definition handle_sfs_reply :: "SfpMessage \<Rightarrow> kernel \<Rightarrow> kernel" where
  "handle_sfs_reply res_msg s =
     (if msg_type res_msg = SFP_MSG_RD_REP \<or> msg_type res_msg = SFP_MSG_WR_REP
      then (if fq_sz s < MAX_BLOCKED
            then s\<lparr>file_req_q := (file_req_q s)[fq_t s := res_msg],
                   fq_t := (fq_t s + 1) mod MAX_BLOCKED, fq_sz := fq_sz s + 1\<rparr>
            else s)
      else if msg_type res_msg = SFP_MSG_DC_REP \<or> msg_type res_msg = SFP_MSG_DR_REP
              \<or> msg_type res_msg = SFP_MSG_DL_REP
      then (if dq_sz s < MAX_BLOCKED
            then s\<lparr>dir_req_q := (dir_req_q s)[dq_t s := res_msg],
                   dq_t := (dq_t s + 1) mod MAX_BLOCKED, dq_sz := dq_sz s + 1\<rparr>
            else s)
      else s)"

text \<open>The lines of the applications, as \<^verbatim>\<open>drain_apps\<close> handles them once
  \<^verbatim>\<open>sscanf\<close> has read their fields, and a child found by \<^verbatim>\<open>waitpid\<close>.\<close>

definition set_pc :: "int \<Rightarrow> int \<Rightarrow> kernel \<Rightarrow> kernel" where
  "set_pc idx v s = s\<lparr>pcbs := (pcbs s)[nat idx := (pcbs s ! nat idx)\<lparr>pc := v\<rparr>]\<rparr>"

definition set_pending :: "int \<Rightarrow> SfpMessage \<Rightarrow> kernel \<Rightarrow> kernel" where
  "set_pending idx m s =
     s\<lparr>pcbs := (pcbs s)[nat idx := (pcbs s ! nat idx)\<lparr>pending_syscall := m\<rparr>]\<rparr>"

definition app_tick :: "int \<Rightarrow> int \<Rightarrow> kernel \<Rightarrow> kernel" where
  "app_tick p v s =
     (let idx = pid_to_index s p
      in if idx \<ge> 0 \<and> state_of s idx \<noteq> TERMINATED then set_pc idx v s else s)"

definition app_done :: "int \<Rightarrow> int \<Rightarrow> kernel \<Rightarrow> kernel option" where
  "app_done p v s =
     (let idx = pid_to_index s p
      in if idx \<ge> 0 \<and> state_of s idx \<noteq> TERMINATED
         then (let s1 = set_state idx TERMINATED (set_pc idx v s)
               in if idx = running_idx s1 then schedule_next (s1\<lparr>running_idx := - 1\<rparr>)
                  else Some s1)
         else Some s)"

definition app_syscall :: "int \<Rightarrow> SfpMessage \<Rightarrow> kernel \<Rightarrow> kernel option" where
  "app_syscall p req_msg s =
     (let idx = pid_to_index s p
      in if idx \<noteq> - 1
         then (if idx \<ge> 0 \<and> state_of s idx \<noteq> TERMINATED
               then (let s1 = set_pending idx req_msg (set_state idx BLOCKED s)
                     in if idx = running_idx s1 then schedule_next (s1\<lparr>running_idx := - 1\<rparr>)
                        else if running_idx s1 = - 1 then schedule_next s1
                        else Some s1)
               else Some s)
         else Some s)"

definition reap :: "int \<Rightarrow> kernel \<Rightarrow> kernel option" where
  "reap p s =
     (let idx = pid_to_index s p
      in if idx \<ge> 0 \<and> state_of s idx \<noteq> TERMINATED
         then (let s1 = set_state idx TERMINATED s
               in if idx = running_idx s1 then schedule_next (s1\<lparr>running_idx := - 1\<rparr>)
                  else Some s1)
         else Some s)"

text \<open>What the main loop of the kernel can be handed in one step.\<close>

datatype event =
    IRQ0
  | IRQ1
  | IRQ2
  | SfsReply SfpMessage
  | Tick int int
  | Done int int
  | Syscall int SfpMessage
  | Reap int

fun step :: "event \<Rightarrow> kernel \<Rightarrow> kernel option" where
  "step IRQ0 s = irq0 s"
| "step IRQ1 s = irq1 s"
| "step IRQ2 s = irq2 s"
| "step (SfsReply m) s = Some (handle_sfs_reply m s)"
| "step (Tick p v) s = Some (app_tick p v s)"
| "step (Done p v) s = app_done p v s"
| "step (Syscall p m) s = app_syscall p m s"
| "step (Reap p) s = reap p s"

fun run_events :: "event list \<Rightarrow> kernel \<Rightarrow> kernel option" where
  "run_events [] s = Some s"
| "run_events (e # es) s = (case step e s of None \<Rightarrow> None | Some s' \<Rightarrow> run_events es s')"

text \<open>
  The state when \<^verbatim>\<open>run_kernel\<close> enters its main loop: the globals start at zero, the
  process table is filled with the process identifiers \<^verbatim>\<open>fork\<close> returned (\<open>pids i\<close>
  for entry \<open>i\<close>), every index is pushed on the ready queue and the first process is
  chosen.
\<close>

definition fresh_pcb :: "(nat \<Rightarrow> int) \<Rightarrow> nat \<Rightarrow> PCB" where
  "fresh_pcb pids i =
     \<lparr>pid = pids i, app_id = int i + 1, state = READY, pc = 0, pending_syscall = zero_msg\<rparr>"

definition boot_globals :: "(nat \<Rightarrow> int) \<Rightarrow> kernel" where
  "boot_globals pids =
     \<lparr>pcbs = map (fresh_pcb pids) [0..<N_APPS], running_idx = - 1,
      file_req_q = replicate MAX_BLOCKED zero_msg, fq_h = 0, fq_t = 0, fq_sz = 0,
      dir_req_q = replicate MAX_BLOCKED zero_msg, dq_h = 0, dq_t = 0, dq_sz = 0,
      rq = replicate MAX_READY 0, rq_h = 0, rq_t = 0, rq_sz = 0,
      shm = replicate N_APPS zero_msg\<rparr>"

definition kernel_start :: "(nat \<Rightarrow> int) \<Rightarrow> kernel option" where
  "kernel_start pids =
     schedule_next
       ((fold (\<lambda>i s. rq_push_tail (int i) s) [0..<N_APPS] (boot_globals pids))
          \<lparr>running_idx := - 1\<rparr>)"

definition kernel_run :: "(nat \<Rightarrow> int) \<Rightarrow> event list \<Rightarrow> kernel option" where
  "kernel_run pids es =
     (case kernel_start pids of None \<Rightarrow> None | Some s \<Rightarrow> run_events es s)"

text \<open>
  Predicates on kernel states. \<open>one_running\<close> is the property of the specification: a
  process in state RUNNING is the one \<open>running_idx\<close> names, so there is at most one.
  \<open>kernel_wf\<close> says that the process table and the ready queue have their declared
  sizes, that the ring indices of the queue fit together, and that every slot of the
  queue and \<open>running_idx\<close> hold an index of the table (or -1 for no running process).
\<close>

definition none_running :: "kernel \<Rightarrow> bool" where
  "none_running s = (\<forall>i<N_APPS. state (pcbs s ! i) \<noteq> RUNNING)"

definition one_running :: "kernel \<Rightarrow> bool" where
  "one_running s = (\<forall>i<N_APPS. state (pcbs s ! i) = RUNNING \<longrightarrow> running_idx s = int i)"

definition kernel_wf :: "kernel \<Rightarrow> bool" where
  "kernel_wf s =
     (length (pcbs s) = N_APPS \<and> length (rq s) = MAX_READY
      \<and> rq_h s < MAX_READY \<and> rq_t s < MAX_READY \<and> rq_sz s \<le> MAX_READY
      \<and> rq_t s = (rq_h s + rq_sz s) mod MAX_READY
      \<and> (\<forall>x \<in> set (rq s). 0 \<le> x \<and> x < int N_APPS)
      \<and> - 1 \<le> running_idx s \<and> running_idx s < int N_APPS)"

section \<open>The entry point and the exit codes\<close>

















section \<open>Properties of the permission check\<close>

text \<open>Each of the two \<^verbatim>\<open>if\<close> blocks of \<open>check_permission\<close> accepts exactly the paths
  that are the prefix or continue it with a slash (lemma \<open>prefix_block\<close>).\<close>

lemma c_str_Nil [simp]: "c_str [] = []"
  by (simp add: c_str_def)

lemma c_str_Cons: "c_str (x # xs) = (if x = NUL then [] else x # c_str xs)"
  by (simp add: c_str_def)


lemma c_str_idem [simp]: "c_str (c_str s) = c_str s"
  by (induction s) (simp_all add: c_str_Cons)

lemma NUL_notin_c_str [simp]: "NUL \<notin> set (c_str s)"
  by (induction s) (simp_all add: c_str_Cons)
















section \<open>Properties of the file operations\<close>


lemma lookup_delete:
  "lookup (AList.delete k fs) p = (if p = k then None else lookup fs p)"
  by (simp add: lookup_def delete_conv')

lemma arr_length [simp]: "length (arr n xs) = n"
  by (simp add: arr_def)









lemma handle_rd_req_missing:
  assumes "check_permission (owner req) (path req) (int (strlen (path req))) \<noteq> 0"
    and "\<forall>c. lookup fs (full_path_of root (path req)) \<noteq> Some (File c)"
  shows "offset (handle_rd_req root fs req res0) = SFP_ERR_NOT_FOUND"
proof -
  have "fopen_rb fs (full_path_of root (path req)) = None"
    using assms(2) by (auto simp: fopen_rb_def split: option.splits node.splits)
  with assms(1) show ?thesis by (simp add: handle_rd_req_def Let_def)
qed


lemma fmt_d_1: "fmt_d 1 = ''1''"
  by code_simp

lemma perm_A1_f: "check_permission 1 ''/A1/f'' (int (strlen ''/A1/f'')) \<noteq> 0"
  by code_simp









lemma full_path_A1_f: "full_path_of ''root'' ''/A1/f'' = ''root/A1/f''"
  by (simp add: full_path_of_def snprintf_trunc_def c_str_def NUL_def)



text \<open>
  \<^bold>\<open>Claim C5.\<close> For a permitted path that names an existing file, a WR_REQ with offset 0
  and \<open>payload[0] = 0\<close> removes the file through \<^verbatim>\<open>unlink\<close>: when the call succeeds the
  reply's offset is 0, the file is gone and a RD_REQ on the same path then answers
  NOT_FOUND (-2); when the call fails the reply's offset is IO (-4) and the store is as
  it was.
\<close>

theorem C5_remove_file:
  assumes perm: "check_permission (owner wr) (path wr) (int (strlen (path wr))) \<noteq> 0"
    and l: "lookup fs (full_path_of root (path wr)) = Some (File c)"
    and rm: "offset wr = 0 \<and> char_at (payload wr) 0 = NUL"
    and rd: "owner rd = owner wr \<and> path rd = path wr"
  shows "(can_unlink env \<longrightarrow>
            offset (fst (handle_wr_req env root fs wr res0)) = 0
          \<and> lookup (snd (handle_wr_req env root fs wr res0)) (full_path_of root (path wr)) = None
          \<and> offset (handle_rd_req root (snd (handle_wr_req env root fs wr res0)) rd res1)
               = SFP_ERR_NOT_FOUND)
       \<and> (\<not> can_unlink env \<longrightarrow>
            offset (fst (handle_wr_req env root fs wr res0)) = SFP_ERR_IO
          \<and> snd (handle_wr_req env root fs wr res0) = fs)"
proof (intro conjI impI)
  let ?fp = "full_path_of root (path wr)"
  let ?r = "handle_wr_req env root fs wr res0"
  assume u: "can_unlink env"
  then have ul: "unlink env fs ?fp = (0, AList.delete ?fp fs)"
    using l by (simp add: unlink_def)
  show "offset (fst ?r) = 0"
    using perm rm ul by (simp add: handle_wr_req_def Let_def)
  have st: "snd ?r = AList.delete ?fp fs"
    using perm rm ul by (simp add: handle_wr_req_def Let_def)
  then show gone: "lookup (snd ?r) ?fp = None" by (simp add: lookup_delete)
  have perm': "check_permission (owner rd) (path rd) (int (strlen (path rd))) \<noteq> 0"
    using perm rd by simp
  have "\<forall>c. lookup (snd ?r) (full_path_of root (path rd)) \<noteq> Some (File c)"
    using gone rd by simp
  with perm' show "offset (handle_rd_req root (snd ?r) rd res1) = SFP_ERR_NOT_FOUND"
    by (rule handle_rd_req_missing)
next
  let ?fp = "full_path_of root (path wr)"
  let ?r = "handle_wr_req env root fs wr res0"
  assume u: "\<not> can_unlink env"
  then have ul: "unlink env fs ?fp = (- 1, fs)"
    using l by (simp add: unlink_def)
  show "offset (fst ?r) = SFP_ERR_IO"
    using perm rm ul by (simp add: handle_wr_req_def Let_def)
  show "snd ?r = fs"
    using perm rm ul by (simp add: handle_wr_req_def Let_def)
qed

theorem C5_remove_file_witness:
  "offset (fst (handle_wr_req
              \<lparr>can_unlink = True, can_create = True, can_seek = True, wr_capacity = 64,
               can_mkdir = True, can_rmdir = True\<rparr>
              ''root'' [(''root/A1/f'', File ''hello'')]
              (zero_msg\<lparr>owner := 1, path := ''/A1/f''\<rparr>) zero_msg)) = 0
   \<and> offset (handle_rd_req ''root''
      (snd (handle_wr_req
              \<lparr>can_unlink = True, can_create = True, can_seek = True, wr_capacity = 64,
               can_mkdir = True, can_rmdir = True\<rparr>
              ''root'' [(''root/A1/f'', File ''hello'')]
              (zero_msg\<lparr>owner := 1, path := ''/A1/f''\<rparr>) zero_msg))
      (zero_msg\<lparr>owner := 1, path := ''/A1/f''\<rparr>) zero_msg) = - 2
   \<and> offset (fst (handle_wr_req
              \<lparr>can_unlink = False, can_create = True, can_seek = True, wr_capacity = 64,
               can_mkdir = True, can_rmdir = True\<rparr>
              ''root'' [(''root/A1/f'', File ''hello'')]
              (zero_msg\<lparr>owner := 1, path := ''/A1/f''\<rparr>) zero_msg)) = - 4"
proof -
  let ?wr = "zero_msg\<lparr>owner := 1, path := ''/A1/f''\<rparr>"
  let ?fs = "[(''root/A1/f'', File ''hello'')]"
  have perm: "check_permission (owner ?wr) (path ?wr) (int (strlen (path ?wr))) \<noteq> 0"
    using perm_A1_f by simp
  have l: "lookup ?fs (full_path_of ''root'' (path ?wr)) = Some (File ''hello'')"
    by (simp add: full_path_A1_f lookup_def)
  have rm: "offset ?wr = 0 \<and> char_at (payload ?wr) 0 = NUL"
    by (simp add: zero_msg_def char_at_def)
  have rd: "owner ?wr = owner ?wr \<and> path ?wr = path ?wr" by simp
  note t = C5_remove_file [OF perm l rm rd, of _ zero_msg zero_msg]
  from t [of "\<lparr>can_unlink = True, can_create = True, can_seek = True, wr_capacity = 64,
               can_mkdir = True, can_rmdir = True\<rparr>"]
       t [of "\<lparr>can_unlink = False, can_create = True, can_seek = True, wr_capacity = 64,
               can_mkdir = True, can_rmdir = True\<rparr>"]
  show ?thesis by simp
qed






section \<open>Properties of the directory listing\<close>

lemma of_char_eq_0: "((of_char c :: nat) = 0) = (c = NUL)"
proof -
  have "((of_char c :: nat) = of_char NUL) = (c = NUL)" by (rule of_char_eq_iff)
  then show ?thesis by (simp add: NUL_def)
qed

lemma strcmp_eq_0: "(strcmp a b = 0) = (c_str a = c_str b)"
proof (induction a b rule: strcmp.induct)
  case 1
  then show ?case by simp
next
  case (2 d ds)
  then show ?case by (auto simp: c_str_Cons of_char_eq_0)
next
  case (3 c cs)
  then show ?case by (auto simp: c_str_Cons of_char_eq_0)
next
  case (4 c cs d ds)
  then show ?case by (auto simp: c_str_Cons)
qed

lemma take_strlen: "take (strlen s) s = c_str s"
  unfolding strlen_def c_str_def by (rule takeWhile_eq_take [symmetric])

lemma dl_scan_skip:
  "is_dot_entry n \<Longrightarrow> dl_scan fs fp (n # rest) ni ci res = dl_scan fs fp rest ni ci res"
  by simp

lemma dl_scan_stop:
  "\<not> is_dot_entry n \<Longrightarrow> ni \<ge> 40 \<or> ci + int (strlen n) \<ge> 2048 \<Longrightarrow>
   dl_scan fs fp (n # rest) ni ci res = (ni, res)"
  by (auto simp: Let_def)

lemma dl_scan_keep:
  "\<not> is_dot_entry n \<Longrightarrow> i < 40 \<Longrightarrow> c + strlen n < 2048 \<Longrightarrow>
   dl_scan fs fp (n # rest) (int i) (int c) res =
     dl_scan fs fp rest (int (Suc i)) (int (c + strlen n))
       (res\<lparr>fstlstpositions :=
              (fstlstpositions res)
                [i := \<lparr>start_index = int c, end_index = int c + int (strlen n) - 1,
                        is_dir = (if stat_is_dir fs
                                       (snprintf_trunc (SFP_MAX_PATH_LEN + 512)
                                          (c_str fp @ ''/'' @ c_str n))
                                  then 1 else 0)\<rparr>],
            allfilenames := take c (allfilenames res) @ c_str n
                              @ drop (c + strlen n) (allfilenames res)\<rparr>)"
proof -
  assume a: "\<not> is_dot_entry n" "i < 40" "c + strlen n < 2048"
  have 1: "int i + 1 = int (Suc i)" by simp
  have 2: "int c + int (strlen n) = int (c + strlen n)" by simp
  from a show ?thesis
    unfolding dl_scan.simps Let_def 1 2 nat_int memcpy_at_def take_strlen
    by simp
qed

lemma name_start_0 [simp]: "name_start ks 0 = 0"
  by (simp add: name_start_def)

lemma name_start_Suc [simp]: "name_start (n # ks) (Suc k) = strlen n + name_start ks k"
  by (simp add: name_start_def strlen_def)

lemma dl_scan_result:
  assumes "length (fstlstpositions res) = 40" and "length (allfilenames res) = 2048"
    and "i \<le> 40" and "c < 2048"
  shows "\<exists>m res'. dl_scan fs fp names (int i) (int c) res = (int (i + m), res')
        \<and> m \<le> length (listed names) \<and> i + m \<le> 40
        \<and> c + name_start (listed names) m < 2048
        \<and> allfilenames res' =
            take c (allfilenames res) @ concat (map c_str (take m (listed names)))
              @ drop (c + name_start (listed names) m) (allfilenames res)
        \<and> fstlstpositions res' =
            take i (fstlstpositions res)
              @ map (\<lambda>k. \<lparr>start_index = int (c + name_start (listed names) k),
                          end_index = int (c + name_start (listed names) k)
                                        + int (strlen (listed names ! k)) - 1,
                          is_dir = (if stat_is_dir fs
                                         (snprintf_trunc (SFP_MAX_PATH_LEN + 512)
                                            (c_str fp @ ''/'' @ c_str (listed names ! k)))
                                    then 1 else 0)\<rparr>) [0..<m]
              @ drop (i + m) (fstlstpositions res)
        \<and> (m < length (listed names) \<longrightarrow>
              i + m = 40 \<or> c + name_start (listed names) m + strlen (listed names ! m) \<ge> 2048)"
  using assms
proof (induction names arbitrary: i c res)
  case Nil
  show ?case
    by (rule exI [of _ 0], rule exI [of _ res]) (use Nil in \<open>simp add: listed_def\<close>)
next
  case (Cons n rest)
  show ?case
  proof (cases "is_dot_entry n")
    case True
    then have l: "listed (n # rest) = listed rest" by (simp add: listed_def)
    from Cons.IH [OF Cons.prems] show ?thesis
      unfolding l dl_scan_skip [OF True] .
  next
    case False
    then have l: "listed (n # rest) = n # listed rest" by (simp add: listed_def)
    show ?thesis
    proof (cases "i < 40 \<and> c + strlen n < 2048")
      case stop: False
      then have "int i \<ge> 40 \<or> int c + int (strlen n) \<ge> 2048" by auto
      from dl_scan_stop [OF False this]
      have d: "dl_scan fs fp (n # rest) (int i) (int c) res = (int i, res)" .
      show ?thesis
        by (rule exI [of _ 0], rule exI [of _ res])
           (use d stop Cons.prems in \<open>auto simp: l\<close>)
    next
      case keep: True
      let ?rec = "\<lparr>start_index = int c, end_index = int c + int (strlen n) - 1,
                    is_dir = (if stat_is_dir fs
                                   (snprintf_trunc (SFP_MAX_PATH_LEN + 512)
                                      (c_str fp @ ''/'' @ c_str n))
                              then 1 else 0)\<rparr>"
      let ?f = "fstlstpositions res" and ?b = "allfilenames res"
      let ?res1 = "res\<lparr>fstlstpositions := ?f[i := ?rec],
                        allfilenames := take c ?b @ c_str n @ drop (c + strlen n) ?b\<rparr>"
      from keep have k1: "i < 40" and k2: "c + strlen n < 2048" by auto
      have d: "dl_scan fs fp (n # rest) (int i) (int c) res
                 = dl_scan fs fp rest (int (Suc i)) (int (c + strlen n)) ?res1"
        by (rule dl_scan_keep [OF False k1 k2])
      have p1: "length (fstlstpositions ?res1) = 40" using Cons.prems by simp
      have p2: "length (allfilenames ?res1) = 2048"
        using Cons.prems k2 by (simp add: strlen_def)
      have p3: "Suc i \<le> 40" using k1 by simp
      from Cons.IH [OF p1 p2 p3 k2]
      obtain m res' where
        r: "dl_scan fs fp rest (int (Suc i)) (int (c + strlen n)) ?res1 = (int (Suc i + m), res')"
        and m1: "m \<le> length (listed rest)" and m2: "Suc i + m \<le> 40"
        and m3: "c + strlen n + name_start (listed rest) m < 2048"
        and b: "allfilenames res' =
            take (c + strlen n) (allfilenames ?res1) @ concat (map c_str (take m (listed rest)))
              @ drop (c + strlen n + name_start (listed rest) m) (allfilenames ?res1)"
        and f: "fstlstpositions res' =
            take (Suc i) (fstlstpositions ?res1)
              @ map (\<lambda>k. \<lparr>start_index = int (c + strlen n + name_start (listed rest) k),
                          end_index = int (c + strlen n + name_start (listed rest) k)
                                        + int (strlen (listed rest ! k)) - 1,
                          is_dir = (if stat_is_dir fs
                                         (snprintf_trunc (SFP_MAX_PATH_LEN + 512)
                                            (c_str fp @ ''/'' @ c_str (listed rest ! k)))
                                    then 1 else 0)\<rparr>) [0..<m]
              @ drop (Suc i + m) (fstlstpositions ?res1)"
        and st: "m < length (listed rest) \<longrightarrow>
              Suc i + m = 40
              \<or> c + strlen n + name_start (listed rest) m + strlen (listed rest ! m) \<ge> 2048"
        by blast
      have lb: "length ?b = 2048" and lf: "length ?f = 40" using Cons.prems by simp_all
      have lc: "length (c_str n) = strlen n" by (simp add: strlen_def)
      have b1: "take (c + strlen n) (allfilenames ?res1) = take c ?b @ c_str n"
        using lb k2 lc by simp
      have b2: "drop (c + strlen n + name_start (listed rest) m) (allfilenames ?res1)
                  = drop (c + strlen n + name_start (listed rest) m) ?b"
        using lb k2 lc by (simp add: add.commute add.left_commute)
      have f1: "take (Suc i) (fstlstpositions ?res1) = take i ?f @ [?rec]"
        using lf k1 by (simp add: take_Suc_conv_app_nth)
      have f2: "drop (Suc i + m) (fstlstpositions ?res1) = drop (Suc i + m) ?f"
        by simp
      show ?thesis
      proof (rule exI [of _ "Suc m"], rule exI [of _ res'], intro conjI)
        show "dl_scan fs fp (n # rest) (int i) (int c) res = (int (i + Suc m), res')"
          using d r by simp
        show "Suc m \<le> length (listed (n # rest))" using m1 by (simp add: l)
        show "i + Suc m \<le> 40" using m2 by simp
        show "c + name_start (listed (n # rest)) (Suc m) < 2048"
          using m3 by (simp add: l add.assoc)
        show "allfilenames res' =
            take c ?b @ concat (map c_str (take (Suc m) (listed (n # rest))))
              @ drop (c + name_start (listed (n # rest)) (Suc m)) ?b"
          unfolding b b1 b2 by (simp add: l add.assoc)
        show "fstlstpositions res' =
            take i ?f
              @ map (\<lambda>k. \<lparr>start_index = int (c + name_start (listed (n # rest)) k),
                          end_index = int (c + name_start (listed (n # rest)) k)
                                        + int (strlen (listed (n # rest) ! k)) - 1,
                          is_dir = (if stat_is_dir fs
                                         (snprintf_trunc (SFP_MAX_PATH_LEN + 512)
                                            (c_str fp @ ''/'' @ c_str (listed (n # rest) ! k)))
                                    then 1 else 0)\<rparr>) [0..<Suc m]
              @ drop (i + Suc m) ?f"
          unfolding f f1 f2 map_upt_Suc by (simp add: l add.assoc)
        show "Suc m < length (listed (n # rest)) \<longrightarrow>
              i + Suc m = 40
              \<or> c + name_start (listed (n # rest)) (Suc m) + strlen (listed (n # rest) ! Suc m)
                  \<ge> 2048"
          using st by (simp add: l add.assoc)
      qed
    qed
  qed
qed

lemma name_slice:
  assumes "k < m" and "m \<le> length ks"
  shows "take (strlen (ks ! k))
           (drop (name_start ks k) (concat (map c_str (take m ks)) @ rest))
         = c_str (ks ! k)"
proof -
  have km: "k < length (take m ks)" using assms by simp
  have "take m ks = take k (take m ks) @ (take m ks) ! k # drop (Suc k) (take m ks)"
    using km by (rule id_take_nth_drop)
  moreover have "take k (take m ks) = take k ks" using assms by (simp add: min_def)
  moreover have "(take m ks) ! k = ks ! k" using assms by simp
  ultimately have sp: "take m ks = take k ks @ ks ! k # drop (Suc k) (take m ks)" by simp
  have "concat (map c_str (take m ks))
          = concat (map c_str (take k ks)) @ c_str (ks ! k)
              @ concat (map c_str (drop (Suc k) (take m ks)))"
    by (subst sp) simp
  then show ?thesis by (simp add: name_start_def strlen_def)
qed

text \<open>
  \<^bold>\<open>Claim C9.\<close> For a permitted DL_REQ: when the directory cannot be opened, \<open>nrnames\<close> is
  NOT_FOUND (-2). Otherwise the entries \<^verbatim>\<open>.\<close> and \<^verbatim>\<open>..\<close> are passed over and the
  first \<open>m\<close> of the other names are recorded, \<open>m\<close> at most 40: the names stand in
  \<open>allfilenames\<close> one after the other with no separator (the rest of the 2048 bytes is
  zero), entry \<open>k\<close> holds the start index, the end index and the directory flag of the
  \<open>k\<close>-th name, and the bytes from its start index are that name. The names recorded
  never fill the buffer; the scan stops before the end of the directory only at 40
  names or at a name that would reach the end of the buffer. \<open>nrnames\<close> is \<open>m\<close>.
\<close>

theorem C9_directory_listing:
  assumes perm: "check_permission (owner req) (path req) (int (strlen (path req))) \<noteq> 0"
    and fp: "fp = full_path_of root (path req)"
    and res: "res = handle_dl_req root fs req res0"
  shows "(opendir fs fp = None \<longrightarrow> nrnames res = SFP_ERR_NOT_FOUND)
       \<and> (\<forall>names. opendir fs fp = Some names \<longrightarrow>
            (\<exists>m. nrnames res = int m
               \<and> m \<le> SFP_MAX_NAMES_IN_DIR \<and> m \<le> length (listed names)
               \<and> name_start (listed names) m < SFP_MAX_ALLFILENAMES_LEN
               \<and> allfilenames res =
                   concat (map c_str (take m (listed names)))
                     @ replicate (SFP_MAX_ALLFILENAMES_LEN - name_start (listed names) m) NUL
               \<and> (\<forall>k<m. fstlstpositions res ! k = listing_entry fs fp (listed names) k
                        \<and> take (strlen (listed names ! k))
                             (drop (name_start (listed names) k) (allfilenames res))
                            = c_str (listed names ! k))
               \<and> (m < length (listed names) \<longrightarrow>
                    m = SFP_MAX_NAMES_IN_DIR
                    \<or> name_start (listed names) m + strlen (listed names ! m)
                         \<ge> SFP_MAX_ALLFILENAMES_LEN)))"
proof (intro conjI allI impI)
  assume "opendir fs fp = None"
  with perm show "nrnames res = SFP_ERR_NOT_FOUND"
    by (simp add: res handle_dl_req_def Let_def fp)
next
  fix names
  assume od: "opendir fs fp = Some names"
  let ?z = "\<lparr>start_index = 0, end_index = 0, is_dir = 0\<rparr>"
  let ?res1 = "res0\<lparr>msg_type := SFP_MSG_DL_REP, owner := owner req, nrnames := 0,
                     allfilenames := replicate SFP_MAX_ALLFILENAMES_LEN NUL,
                     fstlstpositions := replicate SFP_MAX_NAMES_IN_DIR ?z\<rparr>"
  let ?ks = "listed names"
  have p1: "length (fstlstpositions ?res1) = 40" by simp
  have p2: "length (allfilenames ?res1) = 2048" by simp
  from dl_scan_result [OF p1 p2, of 0 0 fs fp names]
  obtain m res' where
    r: "dl_scan fs fp names 0 0 ?res1 = (int m, res')"
    and m1: "m \<le> length ?ks" and m2: "m \<le> 40"
    and m3: "name_start ?ks m < 2048"
    and b: "allfilenames res' =
              concat (map c_str (take m ?ks)) @ drop (name_start ?ks m) (replicate 2048 NUL)"
    and f: "fstlstpositions res' =
              map (listing_entry fs fp ?ks) [0..<m] @ drop m (replicate 40 ?z)"
    and st: "m < length ?ks \<longrightarrow> m = 40 \<or> name_start ?ks m + strlen (?ks ! m) \<ge> 2048"
    by (auto simp: listing_entry_def)
  have e: "res = res'\<lparr>nrnames := int m\<rparr>"
    using perm od r by (simp add: res handle_dl_req_def Let_def fp)
  show "\<exists>m. nrnames res = int m
               \<and> m \<le> SFP_MAX_NAMES_IN_DIR \<and> m \<le> length ?ks
               \<and> name_start ?ks m < SFP_MAX_ALLFILENAMES_LEN
               \<and> allfilenames res =
                   concat (map c_str (take m ?ks))
                     @ replicate (SFP_MAX_ALLFILENAMES_LEN - name_start ?ks m) NUL
               \<and> (\<forall>k<m. fstlstpositions res ! k = listing_entry fs fp ?ks k
                        \<and> take (strlen (?ks ! k))
                             (drop (name_start ?ks k) (allfilenames res))
                            = c_str (?ks ! k))
               \<and> (m < length ?ks \<longrightarrow>
                    m = SFP_MAX_NAMES_IN_DIR
                    \<or> name_start ?ks m + strlen (?ks ! m) \<ge> SFP_MAX_ALLFILENAMES_LEN)"
  proof (rule exI [of _ m], intro conjI allI impI)
    show "nrnames res = int m" by (simp add: e)
    show "m \<le> SFP_MAX_NAMES_IN_DIR" by (rule m2)
    show "m \<le> length ?ks" by (rule m1)
    show "name_start ?ks m < SFP_MAX_ALLFILENAMES_LEN" by (rule m3)
    show ab: "allfilenames res =
                   concat (map c_str (take m ?ks))
                     @ replicate (SFP_MAX_ALLFILENAMES_LEN - name_start ?ks m) NUL"
      by (simp add: e b)
    show "m = SFP_MAX_NAMES_IN_DIR
            \<or> name_start ?ks m + strlen (?ks ! m) \<ge> SFP_MAX_ALLFILENAMES_LEN"
      if "m < length ?ks" using st that by simp
    fix k assume k: "k < m"
    show "fstlstpositions res ! k = listing_entry fs fp ?ks k"
      using k by (simp add: e f nth_append)
    show "take (strlen (?ks ! k)) (drop (name_start ?ks k) (allfilenames res)) = c_str (?ks ! k)"
      unfolding ab by (rule name_slice [OF k m1])
  qed
qed


lemma perm_A4: "check_permission 4 ''/A4'' (int (strlen ''/A4'')) \<noteq> 0"
  by code_simp

lemma opendir_A4:
  "opendir [(''root/A4'', Dir), (''root/A4/sub'', Dir), (''root/A4/f.txt'', File ''x'')]
     ''root/A4'' = Some [''.'', ''..'', ''sub'', ''f.txt'']"
  by code_simp

lemma listed_A4: "listed [''.'', ''..'', ''sub'', ''f.txt''] = [''sub'', ''f.txt'']"
  by code_simp

lemma entries_A4:
  "listing_entry [(''root/A4'', Dir), (''root/A4/sub'', Dir), (''root/A4/f.txt'', File ''x'')]
     ''root/A4'' [''sub'', ''f.txt''] 0 = \<lparr>start_index = 0, end_index = 2, is_dir = 1\<rparr>"
  "listing_entry [(''root/A4'', Dir), (''root/A4/sub'', Dir), (''root/A4/f.txt'', File ''x'')]
     ''root/A4'' [''sub'', ''f.txt''] (Suc 0) = \<lparr>start_index = 3, end_index = 7, is_dir = 0\<rparr>"
  by code_simp+

theorem C9_directory_listing_witness:
  "nrnames (handle_dl_req ''root''
      [(''root/A4'', Dir), (''root/A4/sub'', Dir), (''root/A4/f.txt'', File ''x'')]
      (zero_msg\<lparr>owner := 4, path := ''/A4''\<rparr>) zero_msg) = 2
   \<and> fstlstpositions (handle_dl_req ''root''
      [(''root/A4'', Dir), (''root/A4/sub'', Dir), (''root/A4/f.txt'', File ''x'')]
      (zero_msg\<lparr>owner := 4, path := ''/A4''\<rparr>) zero_msg) ! 0
       = \<lparr>start_index = 0, end_index = 2, is_dir = 1\<rparr>
   \<and> fstlstpositions (handle_dl_req ''root''
      [(''root/A4'', Dir), (''root/A4/sub'', Dir), (''root/A4/f.txt'', File ''x'')]
      (zero_msg\<lparr>owner := 4, path := ''/A4''\<rparr>) zero_msg) ! 1
       = \<lparr>start_index = 3, end_index = 7, is_dir = 0\<rparr>
   \<and> allfilenames (handle_dl_req ''root''
      [(''root/A4'', Dir), (''root/A4/sub'', Dir), (''root/A4/f.txt'', File ''x'')]
      (zero_msg\<lparr>owner := 4, path := ''/A4''\<rparr>) zero_msg)
       = ''subf.txt'' @ replicate 2040 NUL"
proof -
  let ?fs = "[(''root/A4'', Dir), (''root/A4/sub'', Dir), (''root/A4/f.txt'', File ''x'')]"
  let ?req = "zero_msg\<lparr>owner := 4, path := ''/A4''\<rparr>"
  let ?res = "handle_dl_req ''root'' ?fs ?req zero_msg"
  let ?ks = "[''sub'', ''f.txt'']"
  have perm: "check_permission (owner ?req) (path ?req) (int (strlen (path ?req))) \<noteq> 0"
    using perm_A4 by simp
  have fp: "''root/A4'' = full_path_of ''root'' (path ?req)"
    by (simp add: full_path_of_def snprintf_trunc_def c_str_def NUL_def)
  have sl: "strlen ''sub'' = 3" "strlen ''f.txt'' = 5"
    by (simp_all add: strlen_def c_str_def NUL_def)
  have cs: "c_str ''sub'' = ''sub''" "c_str ''f.txt'' = ''f.txt''"
    by (simp_all add: c_str_def NUL_def)
  have ns: "name_start ?ks 0 = 0" "name_start ?ks 1 = 3" "name_start ?ks 2 = 8"
    by (simp_all add: name_start_def cs eval_nat_numeral)
  note t = C9_directory_listing [OF perm fp refl, where fs = ?fs and ?res0.0 = zero_msg,
      THEN conjunct2, rule_format, OF opendir_A4, unfolded listed_A4]
  from t obtain m where n: "nrnames ?res = int m" and le: "m \<le> length ?ks"
    and b: "allfilenames ?res =
              concat (map c_str (take m ?ks)) @ replicate (2048 - name_start ?ks m) NUL"
    and f: "\<forall>k<m. fstlstpositions ?res ! k = listing_entry ?fs ''root/A4'' ?ks k
              \<and> take (strlen (?ks ! k)) (drop (name_start ?ks k) (allfilenames ?res))
                  = c_str (?ks ! k)"
    and st: "m < length ?ks \<longrightarrow> m = 40 \<or> name_start ?ks m + strlen (?ks ! m) \<ge> 2048"
    by blast
  have m: "m = 2"
  proof (rule ccontr)
    assume "m \<noteq> 2"
    with le have "m = 0 \<or> m = 1" by auto
    with st show False by (auto simp: ns sl)
  qed
  have f0: "fstlstpositions ?res ! 0 = \<lparr>start_index = 0, end_index = 2, is_dir = 1\<rparr>"
    using f [rule_format, of 0] by (simp add: m entries_A4(1))
  have f1: "fstlstpositions ?res ! 1 = \<lparr>start_index = 3, end_index = 7, is_dir = 0\<rparr>"
    using f [rule_format, of 1] by (simp add: m entries_A4(2))
  have b': "allfilenames ?res = ''subf.txt'' @ replicate 2040 NUL"
    using b by (simp add: m ns cs)
  from n f0 f1 b' show ?thesis by (simp add: m)
qed

section \<open>Properties of the entry point\<close>








section \<open>Properties of the kernel\<close>

text \<open>Arithmetic of the ring indices of the ready queue.\<close>

lemma ring_push: "t = (h + sz) mod 5 \<Longrightarrow> (t + 1) mod 5 = (h + (sz + 1)) mod (5::nat)"
  by (simp add: mod_Suc_eq)

lemma ring_pop:
  assumes "0 < sz" and "t = (h + sz) mod 5"
  shows "t = ((h + 1) mod 5 + (sz - 1)) mod (5::nat)"
proof -
  from assms(1) obtain k where k: "sz = Suc k" by (cases sz) auto
  have "((h + 1) mod 5 + k) mod 5 = (h + 1 + k) mod 5" by (rule mod_add_left_eq)
  with assms(2) k show ?thesis by simp
qed

lemma ring_slot:
  assumes "0 < sz" and "sz < 5" and "h < 5"
  shows "(h + sz) mod 5 \<noteq> (h::nat)"
proof (cases "h + sz < 5")
  case True
  with assms show ?thesis by simp
next
  case False
  then have "(h + sz) mod 5 = (h + sz - 5) mod 5" by (simp add: le_mod_geq)
  also have "\<dots> = h + sz - 5" using assms by simp
  finally show ?thesis using assms False by arith
qed

lemma state_set_state:
  "length (pcbs s) = N_APPS \<Longrightarrow> 0 \<le> idx \<Longrightarrow> idx < int N_APPS \<Longrightarrow> i < N_APPS \<Longrightarrow>
   state (pcbs (set_state idx st s) ! i) = (if i = nat idx then st else state (pcbs s ! i))"
  by (auto simp: set_state_def nth_list_update)

lemma set_state_frame [simp]:
  "running_idx (set_state idx st s) = running_idx s"
  "rq (set_state idx st s) = rq s" "rq_h (set_state idx st s) = rq_h s"
  "rq_t (set_state idx st s) = rq_t s" "rq_sz (set_state idx st s) = rq_sz s"
  "length (pcbs (set_state idx st s)) = length (pcbs s)"
  by (simp_all add: set_state_def)

lemma kernel_wf_set_state [simp]: "kernel_wf (set_state idx st s) = kernel_wf s"
  by (simp add: kernel_wf_def)

lemma rq_push_tail_frame [simp]:
  "pcbs (rq_push_tail idx s) = pcbs s" "running_idx (rq_push_tail idx s) = running_idx s"
  by (simp_all add: rq_push_tail_def)

lemma kernel_wf_push:
  assumes "kernel_wf s" and "0 \<le> idx" and "idx < int N_APPS"
  shows "kernel_wf (rq_push_tail idx s)"
proof (cases "rq_sz s \<ge> MAX_READY \<or> state_of s idx = TERMINATED")
  case True
  with assms show ?thesis by (auto simp: rq_push_tail_def)
next
  case False
  then have e: "rq_push_tail idx s
      = s\<lparr>rq := (rq s)[rq_t s := idx], rq_t := (rq_t s + 1) mod MAX_READY,
           rq_sz := rq_sz s + 1\<rparr>"
    by (auto simp: rq_push_tail_def)
  have "set ((rq s)[rq_t s := idx]) \<subseteq> insert idx (set (rq s))"
    by (rule set_update_subset_insert)
  with assms have r: "\<forall>x \<in> set ((rq s)[rq_t s := idx]). 0 \<le> x \<and> x < int N_APPS"
    by (auto simp: kernel_wf_def)
  have t: "rq_t s = (rq_h s + rq_sz s) mod 5" using assms(1) by (simp add: kernel_wf_def)
  note rp = ring_push [OF t]
  from assms(1) False r rp show ?thesis
    unfolding e kernel_wf_def by simp
qed

lemma rq_pop_head_frame [simp]:
  "pcbs (snd (rq_pop_head s)) = pcbs s" "running_idx (snd (rq_pop_head s)) = running_idx s"
  by (simp_all add: rq_pop_head_def)

lemma rq_pop_head_empty: "rq_sz s = 0 \<Longrightarrow> rq_pop_head s = (- 1, s)"
  by (simp add: rq_pop_head_def)

lemma kernel_wf_pop:
  assumes "kernel_wf s"
  shows "kernel_wf (snd (rq_pop_head s))"
    and "0 < rq_sz s \<Longrightarrow> 0 \<le> fst (rq_pop_head s) \<and> fst (rq_pop_head s) < int N_APPS"
    and "0 < rq_sz s \<Longrightarrow> fst (rq_pop_head s) = rq s ! rq_h s"
    and "rq_sz (snd (rq_pop_head s)) = rq_sz s - 1"
proof -
  show "kernel_wf (snd (rq_pop_head s))"
  proof (cases "rq_sz s = 0")
    case True
    with assms show ?thesis by (simp add: rq_pop_head_def)
  next
    case False
    have t: "rq_t s = (rq_h s + rq_sz s) mod 5" using assms by (simp add: kernel_wf_def)
    from False have "0 < rq_sz s" by simp
    note rp = ring_pop [OF this t]
    from assms False rp show ?thesis by (auto simp: rq_pop_head_def kernel_wf_def)
  qed
  show "0 \<le> fst (rq_pop_head s) \<and> fst (rq_pop_head s) < int N_APPS" if "0 < rq_sz s"
  proof -
    from assms have "rq s ! rq_h s \<in> set (rq s)" by (simp add: kernel_wf_def)
    with assms that show ?thesis by (simp add: rq_pop_head_def kernel_wf_def)
  qed
  show "fst (rq_pop_head s) = rq s ! rq_h s" if "0 < rq_sz s"
    using that by (simp add: rq_pop_head_def)
  show "rq_sz (snd (rq_pop_head s)) = rq_sz s - 1" by (simp add: rq_pop_head_def)
qed

lemma none_running_imp_one: "none_running s \<Longrightarrow> one_running s"
  by (simp add: none_running_def one_running_def)

lemma none_running_frame:
  "none_running s \<Longrightarrow> pcbs s' = pcbs s \<Longrightarrow> none_running s'"
  by (simp add: none_running_def)

lemma one_running_frame:
  "one_running s \<Longrightarrow> pcbs s' = pcbs s \<Longrightarrow> running_idx s' = running_idx s \<Longrightarrow> one_running s'"
  by (simp add: one_running_def)

lemma kernel_wf_running_idx:
  "kernel_wf s \<Longrightarrow> - 1 \<le> v \<Longrightarrow> v < int N_APPS \<Longrightarrow> kernel_wf (s\<lparr>running_idx := v\<rparr>)"
  by (simp add: kernel_wf_def)

text \<open>Stopping the running process leaves no process running.\<close>

lemma stop_running_inv:
  assumes "kernel_wf s" and "one_running s"
  shows "kernel_wf (stop_running s)" and "none_running (stop_running s)"
    and "running_idx (stop_running s) = running_idx s"
proof -
  let ?r = "running_idx s"
  show "running_idx (stop_running s) = running_idx s" by (simp add: stop_running_def)
  show "kernel_wf (stop_running s)"
  proof (cases "?r \<ge> 0 \<and> state_of s ?r = RUNNING")
    case True
    have hi: "?r < int N_APPS" using assms(1) by (simp add: kernel_wf_def)
    have lo: "0 \<le> ?r" using True by simp
    have "kernel_wf (set_state ?r READY s)" using assms(1) by simp
    from kernel_wf_push [OF this lo hi] True show ?thesis by (simp add: stop_running_def)
  next
    case False
    with assms(1) show ?thesis by (auto simp: stop_running_def)
  qed
  show "none_running (stop_running s)"
  proof (cases "?r \<ge> 0 \<and> state_of s ?r = RUNNING")
    case True
    have len: "length (pcbs s) = N_APPS" and hi: "?r < int N_APPS"
      using assms(1) by (simp_all add: kernel_wf_def)
    have lo: "0 \<le> ?r" using True by simp
    have "state (pcbs (set_state ?r READY s) ! i) \<noteq> RUNNING" if "i < N_APPS" for i
    proof (cases "i = nat ?r")
      case True
      with len hi lo that show ?thesis by (simp add: state_set_state)
    next
      case False
      with assms(2) that lo have "state (pcbs s ! i) \<noteq> RUNNING"
        by (auto simp: one_running_def)
      with False len hi lo that show ?thesis by (simp add: state_set_state)
    qed
    with True show ?thesis by (simp add: stop_running_def none_running_def)
  next
    case False
    have "state (pcbs s ! i) \<noteq> RUNNING" if "i < N_APPS" for i
    proof
      assume r: "state (pcbs s ! i) = RUNNING"
      with assms(2) that have "?r = int i" by (simp add: one_running_def)
      with r False show False by (simp add: state_of_def)
    qed
    with False show ?thesis by (auto simp: stop_running_def none_running_def)
  qed
qed

text \<open>Choosing a process when none runs.\<close>

lemma choose_inv:
  assumes "kernel_wf s" and "none_running s" and "0 \<le> nxt" and "nxt < int N_APPS"
  shows "kernel_wf ((set_state nxt RUNNING s)\<lparr>running_idx := nxt\<rparr>)"
    and "one_running ((set_state nxt RUNNING s)\<lparr>running_idx := nxt\<rparr>)"
proof -
  show "kernel_wf ((set_state nxt RUNNING s)\<lparr>running_idx := nxt\<rparr>)"
    using assms by (simp add: kernel_wf_running_idx)
  have len: "length (pcbs s) = N_APPS" using assms(1) by (simp add: kernel_wf_def)
  show "one_running ((set_state nxt RUNNING s)\<lparr>running_idx := nxt\<rparr>)"
    unfolding one_running_def
  proof (intro allI impI)
    fix i assume i: "i < N_APPS"
      and r: "state (pcbs ((set_state nxt RUNNING s)\<lparr>running_idx := nxt\<rparr>) ! i) = RUNNING"
    have p: "pcbs ((set_state nxt RUNNING s)\<lparr>running_idx := nxt\<rparr>) = pcbs (set_state nxt RUNNING s)"
      by simp
    from assms(2) i have "state (pcbs s ! i) \<noteq> RUNNING" by (simp add: none_running_def)
    with r len assms(3,4) i have "i = nat nxt"
      unfolding p by (simp add: state_set_state split: if_splits)
    with assms(3) show "running_idx ((set_state nxt RUNNING s)\<lparr>running_idx := nxt\<rparr>) = int i"
      by simp
  qed
qed

lemma sched_loop_Suc:
  "sched_loop (Suc n) s =
     (if fst (rq_pop_head s) < 0 then (False, snd (rq_pop_head s))
      else if state_of (snd (rq_pop_head s)) (fst (rq_pop_head s)) = READY
      then (True, (set_state (fst (rq_pop_head s)) RUNNING (stop_running (snd (rq_pop_head s))))
                    \<lparr>running_idx := fst (rq_pop_head s)\<rparr>)
      else if state_of (snd (rq_pop_head s)) (fst (rq_pop_head s)) \<noteq> TERMINATED
      then sched_loop n (rq_push_tail (fst (rq_pop_head s)) (snd (rq_pop_head s)))
      else sched_loop n (snd (rq_pop_head s)))"
  by (simp only: sched_loop.simps Let_def)

lemma sched_loop_inv:
  assumes "kernel_wf s" and "one_running s"
  shows "kernel_wf (snd (sched_loop n s)) \<and> one_running (snd (sched_loop n s))"
  using assms
proof (induction n arbitrary: s)
  case 0
  then show ?case by simp
next
  case (Suc n)
  let ?nxt = "fst (rq_pop_head s)" and ?s1 = "snd (rq_pop_head s)"
  note w1 = kernel_wf_pop [OF Suc.prems(1)]
  have o1: "one_running ?s1" by (rule one_running_frame [OF Suc.prems(2)]) simp_all
  show ?case
  proof (cases "rq_sz s = 0")
    case True
    then have "sched_loop (Suc n) s = (False, s)"
      unfolding sched_loop_Suc by (simp add: rq_pop_head_empty)
    then show ?thesis using Suc.prems by simp
  next
    case False
    then have rng: "0 \<le> ?nxt" "?nxt < int N_APPS" using w1(2) by simp_all
    show ?thesis
    proof (cases "state_of ?s1 ?nxt = READY")
      case True
      note st = stop_running_inv [OF w1(1) o1]
      note ch = choose_inv [OF st(1) st(2) rng]
      have "sched_loop (Suc n) s
              = (True, (set_state ?nxt RUNNING (stop_running ?s1))\<lparr>running_idx := ?nxt\<rparr>)"
        unfolding sched_loop_Suc using True rng by simp
      with ch show ?thesis by simp
    next
      case nr: False
      show ?thesis
      proof (cases "state_of ?s1 ?nxt = TERMINATED")
        case True
        have "sched_loop (Suc n) s = sched_loop n ?s1"
          unfolding sched_loop_Suc using True rng by simp
        with Suc.IH [OF w1(1) o1] show ?thesis by simp
      next
        case False
        have w2: "kernel_wf (rq_push_tail ?nxt ?s1)" using w1(1) rng by (rule kernel_wf_push)
        have o2: "one_running (rq_push_tail ?nxt ?s1)"
          by (rule one_running_frame [OF o1]) simp_all
        have "sched_loop (Suc n) s = sched_loop n (rq_push_tail ?nxt ?s1)"
          unfolding sched_loop_Suc using nr False rng by simp
        with Suc.IH [OF w2 o2] show ?thesis by simp
      qed
    qed
  qed
qed

lemma state_of_push [simp]: "state_of (rq_push_tail idx s) j = state_of s j"
  by (simp add: state_of_def)

lemma push_head_ready:
  assumes wf: "kernel_wf s" and r: "state_of s idx = READY"
    and h: "0 < rq_sz s \<longrightarrow> state_of s (rq s ! rq_h s) = READY"
  shows "0 < rq_sz (rq_push_tail idx s)
       \<and> state_of (rq_push_tail idx s)
            (rq (rq_push_tail idx s) ! rq_h (rq_push_tail idx s)) = READY"
proof (cases "rq_sz s \<ge> MAX_READY")
  case True
  with h show ?thesis by (simp add: rq_push_tail_def state_of_def)
next
  case False
  with r have e: "rq_push_tail idx s
      = s\<lparr>rq := (rq s)[rq_t s := idx], rq_t := (rq_t s + 1) mod MAX_READY,
           rq_sz := rq_sz s + 1\<rparr>"
    by (simp add: rq_push_tail_def)
  have len: "length (rq s) = 5" and hh: "rq_h s < 5"
    and t: "rq_t s = (rq_h s + rq_sz s) mod 5"
    using wf by (simp_all add: kernel_wf_def)
  show ?thesis
  proof (cases "rq_sz s = 0")
    case True
    with t hh have "rq_t s = rq_h s" by simp
    with len hh r show ?thesis unfolding e by (simp add: state_of_def)
  next
    case nz: False
    with False hh have "(rq_h s + rq_sz s) mod 5 \<noteq> rq_h s" by (intro ring_slot) simp_all
    with t have "rq_t s \<noteq> rq_h s" by simp
    with h nz show ?thesis unfolding e by (simp add: state_of_def)
  qed
qed

lemma requeue_ready_inv:
  assumes "kernel_wf s"
    and "0 < rq_sz s \<longrightarrow> state_of s (rq s ! rq_h s) = READY"
    and "found \<longrightarrow> 0 < rq_sz s"
    and "\<forall>i \<in> set xs. i < N_APPS"
  shows "kernel_wf (fst (requeue_ready xs s found))
       \<and> pcbs (fst (requeue_ready xs s found)) = pcbs s
       \<and> running_idx (fst (requeue_ready xs s found)) = running_idx s
       \<and> (snd (requeue_ready xs s found) \<longrightarrow>
            0 < rq_sz (fst (requeue_ready xs s found))
            \<and> state_of (fst (requeue_ready xs s found))
                 (rq (fst (requeue_ready xs s found)) ! rq_h (fst (requeue_ready xs s found)))
                = READY)"
  using assms
proof (induction xs arbitrary: s found)
  case Nil
  then show ?case by simp
next
  case (Cons i rest)
  show ?case
  proof (cases "state_of s (int i) = READY")
    case False
    from Cons.IH [of s found] Cons.prems False show ?thesis by simp
  next
    case True
    let ?s1 = "rq_push_tail (int i) s"
    have i: "0 \<le> int i" "int i < int N_APPS" using Cons.prems(4) by simp_all
    have w: "kernel_wf ?s1" using Cons.prems(1) i by (rule kernel_wf_push)
    note ph = push_head_ready [OF Cons.prems(1) True Cons.prems(2)]
    have r: "requeue_ready (i # rest) s found = requeue_ready rest ?s1 True"
      using True by simp
    from Cons.IH [of ?s1 True] w ph Cons.prems(4) show ?thesis
      unfolding r by simp
  qed
qed

lemma sched_loop_head_ready:
  assumes wf: "kernel_wf s" and nz: "0 < rq_sz s"
    and h: "state_of s (rq s ! rq_h s) = READY"
  shows "fst (sched_loop (rq_sz s) s)"
proof -
  from nz obtain k where k: "rq_sz s = Suc k" by (cases "rq_sz s") auto
  note p = kernel_wf_pop [OF wf]
  have n: "fst (rq_pop_head s) = rq s ! rq_h s" using p(3) nz by simp
  have "state_of (snd (rq_pop_head s)) (fst (rq_pop_head s)) = READY"
    using h n by (simp add: state_of_def)
  moreover have "\<not> fst (rq_pop_head s) < 0" using p(2) nz by simp
  ultimately show ?thesis unfolding k sched_loop_Suc by simp
qed

lemma schedule_next_inv:
  assumes wf: "kernel_wf s" and o: "one_running s"
  shows "\<exists>s'. schedule_next s = Some s' \<and> kernel_wf s' \<and> one_running s'"
proof -
  let ?r = "sched_loop (rq_sz s) s"
  note li = sched_loop_inv [OF wf o, of "rq_sz s"]
  show ?thesis
  proof (cases "fst ?r")
    case True
    then have "schedule_next s = Some (snd ?r)"
      by (subst schedule_next.simps) (simp add: Let_def)
    with li show ?thesis by simp
  next
    case False
    let ?s2 = "stop_running (snd ?r)"
    from li have w1: "kernel_wf (snd ?r)" and o1: "one_running (snd ?r)" by simp_all
    note st = stop_running_inv [OF w1 o1]
    have idle: "kernel_wf (x\<lparr>running_idx := - 1\<rparr>) \<and> one_running (x\<lparr>running_idx := - 1\<rparr>)"
      if "kernel_wf x" and "none_running x" for x
    proof
      show "kernel_wf (x\<lparr>running_idx := - 1\<rparr>)" using that(1) by (simp add: kernel_wf_def)
      have "none_running (x\<lparr>running_idx := - 1\<rparr>)"
        by (rule none_running_frame [OF that(2)]) simp
      then show "one_running (x\<lparr>running_idx := - 1\<rparr>)" by (rule none_running_imp_one)
    qed
    show ?thesis
    proof (cases "rq_sz ?s2 = 0")
      case nz: False
      have "schedule_next s = Some (?s2\<lparr>running_idx := - 1\<rparr>)"
        using False nz by (subst schedule_next.simps) (simp add: Let_def)
      with idle [OF st(1) st(2)] show ?thesis by simp
    next
      case True
      let ?q = "requeue_ready [0..<N_APPS] ?s2 False"
      have rq: "kernel_wf (fst ?q) \<and> pcbs (fst ?q) = pcbs ?s2
                \<and> running_idx (fst ?q) = running_idx ?s2
                \<and> (snd ?q \<longrightarrow> 0 < rq_sz (fst ?q)
                      \<and> state_of (fst ?q) (rq (fst ?q) ! rq_h (fst ?q)) = READY)"
        by (rule requeue_ready_inv) (use st(1) True in simp_all)
      have nq: "none_running (fst ?q)"
        by (rule none_running_frame [OF st(2)]) (use rq in simp)
      show ?thesis
      proof (cases "snd ?q")
        case nf: False
        have "schedule_next s = Some ((fst ?q)\<lparr>running_idx := - 1\<rparr>)"
          using False True nf by (subst schedule_next.simps) (simp add: Let_def)
        with idle [of "fst ?q"] rq nq show ?thesis by simp
      next
        case found: True
        have e: "schedule_next s = schedule_next (fst ?q)"
          using False True found by (subst schedule_next.simps) (simp add: Let_def)
        let ?s3 = "fst ?q"
        from rq found have w3: "kernel_wf ?s3" and nz3: "0 < rq_sz ?s3"
          and h3: "state_of ?s3 (rq ?s3 ! rq_h ?s3) = READY" by simp_all
        have o3: "one_running ?s3" using nq by (rule none_running_imp_one)
        have f3: "fst (sched_loop (rq_sz ?s3) ?s3)"
          by (rule sched_loop_head_ready [OF w3 nz3 h3])
        then have "schedule_next ?s3 = Some (snd (sched_loop (rq_sz ?s3) ?s3))"
          by (subst schedule_next.simps) (simp add: Let_def)
        with sched_loop_inv [OF w3 o3, of "rq_sz ?s3"] e show ?thesis by simp
      qed
    qed
  qed
qed

lemma pid_scan_range:
  "0 \<le> i \<Longrightarrow> pid_scan xs p i = - 1 \<or> (i \<le> pid_scan xs p i \<and> pid_scan xs p i < i + int (length xs))"
proof (induction xs arbitrary: i)
  case Nil
  then show ?case by simp
next
  case (Cons x xs)
  from Cons.IH [of "i + 1"] Cons.prems show ?case by auto
qed

lemma pid_to_index_range:
  "kernel_wf s \<Longrightarrow> 0 \<le> pid_to_index s p \<Longrightarrow> pid_to_index s p < int N_APPS"
  using pid_scan_range [of 0 "pcbs s" p]
  by (auto simp: pid_to_index_def kernel_wf_def)

lemma state_set_pc:
  "state (pcbs (set_pc idx v s) ! i) = state (pcbs s ! i)"
  by (cases "nat idx < length (pcbs s)")
     (simp_all add: set_pc_def nth_list_update list_update_beyond)

lemma state_set_pending:
  "state (pcbs (set_pending idx m s) ! i) = state (pcbs s ! i)"
  by (cases "nat idx < length (pcbs s)")
     (simp_all add: set_pending_def nth_list_update list_update_beyond)

lemma kernel_wf_set_pc [simp]: "kernel_wf (set_pc idx v s) = kernel_wf s"
  by (simp add: kernel_wf_def set_pc_def)

lemma kernel_wf_set_pending [simp]: "kernel_wf (set_pending idx m s) = kernel_wf s"
  by (simp add: kernel_wf_def set_pending_def)

lemma running_idx_set_pc [simp]: "running_idx (set_pc idx v s) = running_idx s"
  by (simp add: set_pc_def)

lemma running_idx_set_pending [simp]: "running_idx (set_pending idx m s) = running_idx s"
  by (simp add: set_pending_def)

lemma one_running_set_pc: "one_running (set_pc idx v s) = one_running s"
  by (simp add: one_running_def state_set_pc)

lemma one_running_set_pending: "one_running (set_pending idx m s) = one_running s"
  by (simp add: one_running_def state_set_pending)

lemma none_running_set_pending: "none_running (set_pending idx m s) = none_running s"
  by (simp add: none_running_def state_set_pending)

text \<open>A process that leaves or never had the state RUNNING.\<close>

lemma one_running_set_state:
  assumes "kernel_wf s" and "one_running s" and "0 \<le> idx" and "idx < int N_APPS"
    and "st \<noteq> RUNNING"
  shows "one_running (set_state idx st s)"
    and "idx = running_idx s \<Longrightarrow> none_running (set_state idx st s)"
proof -
  have len: "length (pcbs s) = N_APPS" using assms(1) by (simp add: kernel_wf_def)
  show "one_running (set_state idx st s)"
    using assms by (auto simp: one_running_def state_set_state [OF len])
  show "none_running (set_state idx st s)" if "idx = running_idx s"
    unfolding none_running_def
  proof (intro allI impI)
    fix i assume i: "i < N_APPS"
    show "state (pcbs (set_state idx st s) ! i) \<noteq> RUNNING"
    proof (cases "i = nat idx")
      case True
      with assms i show ?thesis by (simp add: state_set_state [OF len])
    next
      case False
      with assms(2,3) i that have "state (pcbs s ! i) \<noteq> RUNNING"
        by (auto simp: one_running_def)
      with False assms i show ?thesis by (simp add: state_set_state [OF len])
    qed
  qed
qed

lemma idle_inv:
  assumes "kernel_wf x" and "none_running x"
  shows "kernel_wf (x\<lparr>running_idx := - 1\<rparr>)" and "one_running (x\<lparr>running_idx := - 1\<rparr>)"
proof -
  show "kernel_wf (x\<lparr>running_idx := - 1\<rparr>)" using assms(1) by (simp add: kernel_wf_def)
  have "none_running (x\<lparr>running_idx := - 1\<rparr>)"
    by (rule none_running_frame [OF assms(2)]) simp
  then show "one_running (x\<lparr>running_idx := - 1\<rparr>)" by (rule none_running_imp_one)
qed

lemma irq0_inv:
  assumes wf: "kernel_wf s" and o: "one_running s"
  shows "\<exists>s'. irq0 s = Some s' \<and> kernel_wf s' \<and> one_running s'"
proof (cases "running_idx s \<ge> 0 \<and> state_of s (running_idx s) = RUNNING")
  case True
  then have e: "irq0 s = schedule_next ((stop_running s)\<lparr>running_idx := - 1\<rparr>)"
    by (simp add: irq0_def stop_running_def Let_def)
  note st = stop_running_inv [OF wf o]
  note i = idle_inv [OF st(1) st(2)]
  from schedule_next_inv [OF i] show ?thesis unfolding e .
next
  case False
  then have e: "irq0 s = schedule_next s" by (auto simp: irq0_def)
  from schedule_next_inv [OF wf o] show ?thesis unfolding e .
qed

lemma unblock_owner_inv:
  assumes wf: "kernel_wf s" and o: "one_running s"
  shows "\<exists>s'. unblock_owner m s = Some s' \<and> kernel_wf s' \<and> one_running s'"
proof (cases "owner m - 1 \<ge> 0 \<and> owner m - 1 < int N_APPS \<and> state_of s (owner m - 1) = BLOCKED")
  case False
  then have "unblock_owner m s = Some s" by (auto simp: unblock_owner_def Let_def)
  with wf o show ?thesis by simp
next
  case True
  let ?idx = "owner m - 1"
  let ?s0 = "s\<lparr>shm := (shm s)[nat ?idx := m]\<rparr>"
  let ?s1 = "rq_push_tail ?idx (set_state ?idx READY ?s0)"
  have w0: "kernel_wf ?s0" using wf by (simp add: kernel_wf_def)
  have o0: "one_running ?s0" by (rule one_running_frame [OF o]) simp_all
  from True have lo: "0 \<le> ?idx" and hi: "?idx < int N_APPS" by simp_all
  have o1': "one_running (set_state ?idx READY ?s0)"
    by (rule one_running_set_state(1) [OF w0 o0 lo hi]) simp
  have w1: "kernel_wf ?s1" by (rule kernel_wf_push) (use w0 lo hi in simp_all)
  have o1: "one_running ?s1" by (rule one_running_frame [OF o1']) simp_all
  have st: "state_of ?s0 ?idx = BLOCKED" using True by (simp add: state_of_def)
  have e: "unblock_owner m s = (if running_idx ?s1 = - 1 then schedule_next ?s1 else Some ?s1)"
    using True by (simp add: unblock_owner_def Let_def state_of_def)
  show ?thesis
  proof (cases "running_idx ?s1 = - 1")
    case True
    with schedule_next_inv [OF w1 o1] e show ?thesis by simp
  next
    case False
    with w1 o1 e show ?thesis by simp
  qed
qed

lemma irq1_inv:
  assumes wf: "kernel_wf s" and o: "one_running s"
  shows "\<exists>s'. irq1 s = Some s' \<and> kernel_wf s' \<and> one_running s'"
proof (cases "fq_sz s > 0")
  case False
  with wf o show ?thesis by (simp add: irq1_def)
next
  case True
  let ?s0 = "s\<lparr>fq_h := (fq_h s + 1) mod MAX_BLOCKED, fq_sz := fq_sz s - 1\<rparr>"
  have w0: "kernel_wf ?s0" using wf by (simp add: kernel_wf_def)
  have o0: "one_running ?s0" by (rule one_running_frame [OF o]) simp_all
  from unblock_owner_inv [OF w0 o0] True show ?thesis by (simp add: irq1_def)
qed

lemma irq2_inv:
  assumes wf: "kernel_wf s" and o: "one_running s"
  shows "\<exists>s'. irq2 s = Some s' \<and> kernel_wf s' \<and> one_running s'"
proof (cases "dq_sz s > 0")
  case False
  with wf o show ?thesis by (simp add: irq2_def)
next
  case True
  let ?s0 = "s\<lparr>dq_h := (dq_h s + 1) mod MAX_BLOCKED, dq_sz := dq_sz s - 1\<rparr>"
  have w0: "kernel_wf ?s0" using wf by (simp add: kernel_wf_def)
  have o0: "one_running ?s0" by (rule one_running_frame [OF o]) simp_all
  from unblock_owner_inv [OF w0 o0] True show ?thesis by (simp add: irq2_def)
qed

lemma handle_sfs_reply_inv:
  assumes wf: "kernel_wf s" and o: "one_running s"
  shows "kernel_wf (handle_sfs_reply m s) \<and> one_running (handle_sfs_reply m s)"
proof
  show "kernel_wf (handle_sfs_reply m s)"
    using wf by (simp add: handle_sfs_reply_def kernel_wf_def)
  show "one_running (handle_sfs_reply m s)"
    by (rule one_running_frame [OF o]) (simp_all add: handle_sfs_reply_def)
qed

lemma app_tick_inv:
  assumes wf: "kernel_wf s" and o: "one_running s"
  shows "kernel_wf (app_tick p v s) \<and> one_running (app_tick p v s)"
  using assms by (simp add: app_tick_def Let_def one_running_set_pc)

text \<open>A process ends: by its DONE line or found by \<open>waitpid\<close>.\<close>

lemma terminate_inv:
  assumes wf: "kernel_wf s" and o: "one_running s" and lo: "0 \<le> idx" and hi: "idx < int N_APPS"
  shows "\<exists>s'. (let s1 = set_state idx TERMINATED s
               in if idx = running_idx s1 then schedule_next (s1\<lparr>running_idx := - 1\<rparr>)
                  else Some s1) = Some s'
          \<and> kernel_wf s' \<and> one_running s'"
proof (cases "idx = running_idx s")
  case True
  let ?s1 = "set_state idx TERMINATED s"
  have w1: "kernel_wf ?s1" using wf by simp
  have n1: "none_running ?s1"
    by (rule one_running_set_state(2) [OF wf o lo hi _ True]) simp
  note i = idle_inv [OF w1 n1]
  from schedule_next_inv [OF i] True show ?thesis by (simp add: Let_def)
next
  case False
  have "one_running (set_state idx TERMINATED s)"
    by (rule one_running_set_state(1) [OF wf o lo hi]) simp
  with wf False show ?thesis by (simp add: Let_def)
qed

lemma app_done_inv:
  assumes wf: "kernel_wf s" and o: "one_running s"
  shows "\<exists>s'. app_done p v s = Some s' \<and> kernel_wf s' \<and> one_running s'"
proof (cases "pid_to_index s p \<ge> 0 \<and> state_of s (pid_to_index s p) \<noteq> TERMINATED")
  case False
  then have "app_done p v s = Some s" by (auto simp: app_done_def Let_def)
  with wf o show ?thesis by simp
next
  case True
  let ?idx = "pid_to_index s p"
  have lo: "0 \<le> ?idx" using True by simp
  have hi: "?idx < int N_APPS" using pid_to_index_range [OF wf lo] .
  have w: "kernel_wf (set_pc ?idx v s)" using wf by simp
  have o': "one_running (set_pc ?idx v s)" using o by (simp add: one_running_set_pc)
  have e: "app_done p v s =
      (let s1 = set_state ?idx TERMINATED (set_pc ?idx v s)
       in if ?idx = running_idx s1 then schedule_next (s1\<lparr>running_idx := - 1\<rparr>)
          else Some s1)"
    using True by (simp add: app_done_def Let_def)
  from terminate_inv [OF w o' lo hi] show ?thesis unfolding e .
qed

lemma reap_inv:
  assumes wf: "kernel_wf s" and o: "one_running s"
  shows "\<exists>s'. reap p s = Some s' \<and> kernel_wf s' \<and> one_running s'"
proof (cases "pid_to_index s p \<ge> 0 \<and> state_of s (pid_to_index s p) \<noteq> TERMINATED")
  case False
  then have "reap p s = Some s" by (auto simp: reap_def Let_def)
  with wf o show ?thesis by simp
next
  case True
  let ?idx = "pid_to_index s p"
  have lo: "0 \<le> ?idx" using True by simp
  have hi: "?idx < int N_APPS" using pid_to_index_range [OF wf lo] .
  have e: "reap p s =
      (let s1 = set_state ?idx TERMINATED s
       in if ?idx = running_idx s1 then schedule_next (s1\<lparr>running_idx := - 1\<rparr>)
          else Some s1)"
    using True by (simp add: reap_def Let_def)
  from terminate_inv [OF wf o lo hi] show ?thesis unfolding e .
qed

lemma app_syscall_inv:
  assumes wf: "kernel_wf s" and o: "one_running s"
  shows "\<exists>s'. app_syscall p m s = Some s' \<and> kernel_wf s' \<and> one_running s'"
proof (cases "pid_to_index s p \<ge> 0 \<and> state_of s (pid_to_index s p) \<noteq> TERMINATED")
  case False
  then have "app_syscall p m s = Some s" by (auto simp: app_syscall_def Let_def)
  with wf o show ?thesis by simp
next
  case True
  let ?idx = "pid_to_index s p"
  let ?s1 = "set_pending ?idx m (set_state ?idx BLOCKED s)"
  have lo: "0 \<le> ?idx" using True by simp
  have hi: "?idx < int N_APPS" using pid_to_index_range [OF wf lo] .
  have w1: "kernel_wf ?s1" using wf by simp
  have o1: "one_running ?s1"
    unfolding one_running_set_pending
    by (rule one_running_set_state(1) [OF wf o lo hi]) simp
  have e: "app_syscall p m s =
      (if ?idx = running_idx ?s1 then schedule_next (?s1\<lparr>running_idx := - 1\<rparr>)
       else if running_idx ?s1 = - 1 then schedule_next ?s1
       else Some ?s1)"
    using True by (auto simp: app_syscall_def Let_def)
  show ?thesis
  proof (cases "?idx = running_idx ?s1")
    case True
    then have r: "?idx = running_idx s" by simp
    have n: "none_running ?s1"
      unfolding none_running_set_pending
      by (rule one_running_set_state(2) [OF wf o lo hi _ r]) simp
    note i = idle_inv [OF w1 n]
    from schedule_next_inv [OF i] True e show ?thesis by simp
  next
    case False
    show ?thesis
    proof (cases "running_idx ?s1 = - 1")
      case True
      with schedule_next_inv [OF w1 o1] False e show ?thesis by simp
    next
      case nr: False
      with False e w1 o1 show ?thesis by simp
    qed
  qed
qed

lemma step_inv:
  assumes "kernel_wf s" and "one_running s"
  shows "\<exists>s'. step e s = Some s' \<and> kernel_wf s' \<and> one_running s'"
proof (cases e)
  case IRQ0
  with irq0_inv [OF assms] show ?thesis by simp
next
  case IRQ1
  with irq1_inv [OF assms] show ?thesis by simp
next
  case IRQ2
  with irq2_inv [OF assms] show ?thesis by simp
next
  case (SfsReply m)
  with handle_sfs_reply_inv [OF assms, of m] show ?thesis by simp
next
  case (Tick p v)
  with app_tick_inv [OF assms, of p v] show ?thesis by simp
next
  case (Done p v)
  with app_done_inv [OF assms, of p v] show ?thesis by simp
next
  case (Syscall p m)
  with app_syscall_inv [OF assms, of p m] show ?thesis by simp
next
  case (Reap p)
  with reap_inv [OF assms, of p] show ?thesis by simp
qed

lemma run_events_inv:
  assumes "kernel_wf s" and "one_running s"
  shows "\<exists>s'. run_events es s = Some s' \<and> kernel_wf s' \<and> one_running s'"
  using assms
proof (induction es arbitrary: s)
  case Nil
  then show ?case by simp
next
  case (Cons e es)
  from step_inv [OF Cons.prems, of e]
  obtain s1 where s1: "step e s = Some s1" "kernel_wf s1" "one_running s1" by blast
  from Cons.IH [OF s1(2,3)] s1(1) show ?case by simp
qed

lemma upt_5: "[0..<5] = [0, 1, 2, 3, 4]"
  by (simp add: upt_rec)

lemma boot_inv:
  "kernel_wf (boot_globals pids)" "none_running (boot_globals pids)"
  by (simp_all add: boot_globals_def kernel_wf_def none_running_def fresh_pcb_def upt_5
      nth_Cons' )

lemma fold_push_inv:
  assumes "kernel_wf s" and "\<forall>i \<in> set xs. i < N_APPS"
  shows "kernel_wf (fold (\<lambda>i s. rq_push_tail (int i) s) xs s)
       \<and> pcbs (fold (\<lambda>i s. rq_push_tail (int i) s) xs s) = pcbs s"
  using assms
proof (induction xs arbitrary: s)
  case Nil
  then show ?case by simp
next
  case (Cons i xs)
  have "kernel_wf (rq_push_tail (int i) s)"
    by (rule kernel_wf_push) (use Cons.prems in simp_all)
  from Cons.IH [OF this] Cons.prems(2) show ?case by simp
qed

lemma kernel_start_inv:
  "\<exists>s. kernel_start pids = Some s \<and> kernel_wf s \<and> one_running s"
proof -
  let ?s0 = "fold (\<lambda>i s. rq_push_tail (int i) s) [0..<N_APPS] (boot_globals pids)"
  have f: "kernel_wf ?s0 \<and> pcbs ?s0 = pcbs (boot_globals pids)"
    by (rule fold_push_inv) (simp_all add: boot_inv)
  then have n: "none_running ?s0"
    by (intro none_running_frame [OF boot_inv(2)]) simp
  from f have w: "kernel_wf ?s0" by simp
  note i = idle_inv [OF w n]
  from schedule_next_inv [OF i] show ?thesis by (simp add: kernel_start_def)
qed

text \<open>
  \<^bold>\<open>Claim C3.\<close> In every reachable kernel state at most one PCB is in state RUNNING, and
  when there is one it is the PCB that \<open>running_idx\<close> names. Reachable means: the state
  after the start of the kernel and any sequence of events (interrupt lines, replies
  from the server, lines of the applications, children found dead). Every step
  returns (lemma \<open>step_inv\<close> gives the state after it) and keeps the property.
\<close>

theorem C3_at_most_one_running:
  "\<exists>s. kernel_run pids es = Some s
      \<and> card {i. i < N_APPS \<and> state (pcbs s ! i) = RUNNING} \<le> 1
      \<and> (\<forall>i<N_APPS. state (pcbs s ! i) = RUNNING \<longrightarrow> running_idx s = int i)"
proof -
  from kernel_start_inv [of pids]
  obtain s0 where s0: "kernel_start pids = Some s0" "kernel_wf s0" "one_running s0" by blast
  from run_events_inv [OF s0(2,3), of es]
  obtain s where s: "run_events es s0 = Some s" "one_running s" by blast
  have r: "kernel_run pids es = Some s" using s0(1) s(1) by (simp add: kernel_run_def)
  have sub: "{i. i < N_APPS \<and> state (pcbs s ! i) = RUNNING} \<subseteq> {nat (running_idx s)}"
    using s(2) by (auto simp: one_running_def)
  have "card {i. i < N_APPS \<and> state (pcbs s ! i) = RUNNING} \<le> card {nat (running_idx s)}"
    by (rule card_mono [OF _ sub]) simp
  then have c: "card {i. i < N_APPS \<and> state (pcbs s ! i) = RUNNING} \<le> 1" by simp
  from r c s(2) show ?thesis by (auto simp: one_running_def)
qed

lemmas kernel_eval =
  kernel_run_def kernel_start_def boot_globals_def fresh_pcb_def
  rq_push_tail_def rq_pop_head_def state_of_def set_state_def stop_running_def
  irq0_def irq1_def irq2_def unblock_owner_def handle_sfs_reply_def app_syscall_def
  pid_to_index_def set_pending_def rq_contents_def Let_def upt_5 schedule_next.simps

lemma after_first_tick:
  "map_option (\<lambda>s. state (pcbs s ! 1)) (kernel_run (\<lambda>i. 100 + int i) [IRQ0]) = Some RUNNING"
  by (simp add: kernel_eval)

theorem C3_at_most_one_running_witness:
  "\<exists>s. kernel_run (\<lambda>i. 100 + int i) [IRQ0] = Some s
      \<and> state (pcbs s ! 1) = RUNNING \<and> running_idx s = 1"
proof -
  from C3_at_most_one_running [of "\<lambda>i. 100 + int i" "[IRQ0]"]
  obtain s where s: "kernel_run (\<lambda>i. 100 + int i) [IRQ0] = Some s"
    and o: "\<forall>i<N_APPS. state (pcbs s ! i) = RUNNING \<longrightarrow> running_idx s = int i"
    by blast
  from after_first_tick s have r: "state (pcbs s ! 1) = RUNNING" by simp
  from o [rule_format, of 1] r have "running_idx s = 1" by simp
  with s r show ?thesis by simp
qed

text \<open>
  \<^bold>\<open>Claim C2.\<close> The claim says that no index occurs twice in the ready queue. The kernel
  breaks it on this run: A1 is preempted by IRQ0 and queued, its system call is handled
  after that and blocks it while it stays in the queue, the reply arrives, and IRQ1
  makes it ready and pushes it a second time. The queue from head to tail is then
  A3, A4, A5, A1, A1.
\<close>

theorem C2_duplicate_in_ready_queue:
  "map_option rq_contents
     (kernel_run (\<lambda>i. 100 + int i)
        [IRQ0,
         Syscall 100 (zero_msg\<lparr>msg_type := SFP_MSG_RD_REQ, owner := 1\<rparr>),
         SfsReply (zero_msg\<lparr>msg_type := SFP_MSG_RD_REP, owner := 1\<rparr>),
         IRQ1])
   = Some [2, 3, 4, 0, 0]
   \<and> \<not> distinct [2, 3, 4, 0, 0 :: int]"
  by (simp add: kernel_eval)

end
